theory Spec2Isabelle
  imports Main "HOL-Library.Product_Lexorder" "HOL-Library.Multiset" "HOL-Library.AList"
begin

section \<open>Data model\<close>

subsection \<open>Values, metadata, entities and collections\<close>

text \<open>
  Entities and relation collections are JavaScript objects, compared by reference
  (\<^verbatim>\<open>===\<close>, \<^verbatim>\<open>includes\<close>, \<^verbatim>\<open>indexOf\<close>). Each is modelled as an index into an arena of
  the state: \<open>eid\<close> for entities, \<open>cid\<close> for collections.
\<close>

type_synonym eid = nat
type_synonym cid = nat

text \<open>
  The values a property of an entity can hold: \<open>VEnt\<close> an entity, \<open>VRef\<close> a
  \<^verbatim>\<open>Reference\<close> wrapper around one, \<open>VColl\<close> a \<^verbatim>\<open>Collection\<close>, \<open>VArr\<close> a raw array,
  \<open>VDate\<close> a \<^verbatim>\<open>Date\<close> object (compared by reference), the rest scalars.
\<close>

datatype val =
    VUndef
  | VNull
  | VNum int
  | VStr string
  | VDate nat
  | VEnt eid
  | VRef eid
  | VColl cid
  | VArr "val list"

text \<open>JavaScript truthiness of a value (objects are always truthy).\<close>

fun truthy :: "val \<Rightarrow> bool" where
  "truthy VUndef = False"
| "truthy VNull = False"
| "truthy (VNum n) = (n \<noteq> 0)"
| "truthy (VStr s) = (s \<noteq> [])"
| "truthy _ = True"

text \<open>\<^verbatim>\<open>Utils.isEntity(value)\<close> (a \<^verbatim>\<open>Reference\<close> wrapper is not an entity).\<close>

fun isEntity :: "val \<Rightarrow> bool" where
  "isEntity (VEnt e) = True"
| "isEntity _ = False"

datatype ReferenceType = SCALAR | ONE_TO_ONE | ONE_TO_MANY | MANY_TO_ONE | MANY_TO_MANY

text \<open>\<^verbatim>\<open>Cascade.ALL\<close> is written \<open>Cascade_ALL\<close>.\<close>

datatype Cascade = PERSIST | MERGE | REMOVE | Cascade_ALL

datatype LockMode = NONE | OPTIMISTIC | PESSIMISTIC_READ | PESSIMISTIC_WRITE

datatype ChangeSetType = CREATE | UPDATE | DELETE

datatype HookType =
  onInit | beforeCreate | afterCreate | beforeUpdate | afterUpdate | beforeDelete | afterDelete

text \<open>
  \<^verbatim>\<open>EntityProperty\<close> and \<^verbatim>\<open>EntityMetadata\<close> (typings), with the fields the unit of work and
  the collection read. \<open>p_mappedBy\<close> and \<open>m_versionProperty\<close> are only ever tested for
  truthiness before use: the empty string stands for an absent (undefined) one.
\<close>

record EntityProperty =
  p_name :: string
  p_type :: string
  p_reference :: ReferenceType
  p_wrappedReference :: bool
  p_nullable :: bool
  p_cascade :: "Cascade list"
  p_orphanRemoval :: bool
  p_owner :: bool
  p_mappedBy :: string

record EntityMetadata =
  m_name :: string
  m_collection :: string
  m_versionProperty :: string
  m_properties :: "EntityProperty list"
  m_hooks :: "(HookType \<times> string list) list"

text \<open>
  An entity with what \<^verbatim>\<open>wrap(entity)\<close> exposes: \<^verbatim>\<open>constructor.name\<close>, \<^verbatim>\<open>__uuid\<close>,
  \<^verbatim>\<open>__primaryKey\<close>, \<^verbatim>\<open>__primaryKeys\<close>, \<^verbatim>\<open>__serializedPrimaryKey\<close>, \<^verbatim>\<open>isInitialized()\<close>,
  whether \<^verbatim>\<open>__em\<close> is set, and its own properties by name.
\<close>

record Entity =
  e_constructor_name :: string
  e_uuid :: string
  e_primaryKey :: val
  e_primaryKeys :: "val list"
  e_serializedPrimaryKey :: string
  e_initialized :: bool
  e_em :: bool
  e_fields :: "(string \<times> val) list"

text \<open>A \<^verbatim>\<open>Collection\<close> object: owner, property, items, and its four private fields.\<close>

record Collection =
  c_owner :: eid
  c_property :: EntityProperty
  c_items :: "eid list"
  c_snapshot :: "eid list"
  c_initialized :: bool
  c_dirty :: bool
  c_populated :: bool

record ChangeSet =
  cs_name :: string
  cs_collection :: string
  cs_type :: ChangeSetType
  cs_entity :: eid
  cs_payload :: "(string \<times> val) list"
  cs_persisted :: bool

datatype EntityIdentifier = EntityIdentifier val

subsection \<open>The state of one unit of work\<close>

text \<open>
  The two arenas, and the fields of the \<^verbatim>\<open>UnitOfWork\<close> class. The three dictionaries are
  association lists in insertion order (the order of \<^verbatim>\<open>Object.values\<close>). \<open>world\<close> is
  everything outside the unit of work that its collaborators read and write (database,
  connection, configuration).
\<close>

record 'w state =
  entities :: "Entity list"
  collections :: "Collection list"
  identityMap :: "(string \<times> eid) list"
  originalEntityData :: "(string \<times> (string \<times> val) list) list"
  identifierMap :: "(string \<times> EntityIdentifier) list"
  persistStack :: "eid list"
  removeStack :: "eid list"
  orphanRemoveStack :: "eid list"
  changeSets :: "ChangeSet list"
  collectionUpdates :: "cid list"
  extraUpdates :: "(eid \<times> string \<times> val) list"
  world :: 'w

datatype error =
    NotEntity
  | CannotModifyInverseCollection
  | CollectionNotInitialized
  | EntityNotManaged
  | NotVersioned
  | LockFailedVersionMismatch
  | TransactionRequired
  | TypeError
  | Thrown string

text \<open>
  A call either throws (\<open>Inl\<close>: the error and the state at the throw) or returns.
  Recursive walks carry fuel; \<open>None\<close> is a walk that ran out of it.
\<close>

type_synonym ('w, 'a) result = "(error \<times> 'w state) + 'a"

definition bindR :: "('w, 'a) result option \<Rightarrow> ('a \<Rightarrow> ('w, 'b) result option) \<Rightarrow> ('w, 'b) result option" where
  "bindR m f = (case m of None \<Rightarrow> None | Some (Inl e) \<Rightarrow> Some (Inl e) | Some (Inr a) \<Rightarrow> f a)"

subsection \<open>Collaborators outside the sources\<close>

text \<open>
  The classes the unit of work and the collection call but whose code is not part of the
  sources are parameters, collected in one record:
  \<^item> \<open>metadata\<close>: \<^verbatim>\<open>MetadataStorage.get(name)\<close>;
  \<^item> \<open>prepareEntity\<close>, \<open>diffEntities\<close>, \<open>getPrimaryKeyHash\<close>: the \<^verbatim>\<open>Utils\<close> functions;
  \<^item> \<open>newReference\<close>: the object \<^verbatim>\<open>em.getReference(type, key)\<close> builds;
  \<^item> \<open>super_add\<close>, \<open>super_remove\<close>: what \<^verbatim>\<open>ArrayCollection.add\<close> and
    \<^verbatim>\<open>ArrayCollection.remove\<close> make of the items of the collection (current items, then
    the argument); what they pass on to the collection on the other side of the relation
    is left out;
  \<^item> \<open>computeChangeSet\<close>: \<^verbatim>\<open>ChangeSetComputer.computeChangeSet(entity)\<close>;
  \<^item> \<open>persistChangeSet\<close>: \<^verbatim>\<open>ChangeSetPersister.persistToDatabase(changeSet, ctx)\<close>, which
    may update the change set it is given;
  \<^item> \<open>callHook\<close>: the user's hook method of an entity;
  \<^item> \<open>em_merge\<close>: \<^verbatim>\<open>EntityManager.merge(entity)\<close>;
  \<^item> \<open>syncCollection\<close>: the driver's \<^verbatim>\<open>syncCollection(coll, ctx)\<close>;
  \<^item> \<open>isInTransaction\<close>, \<open>supportsTransactions\<close>, \<open>implicitTransactions\<close>,
    \<open>transactional\<close>: the transaction state, the platform, the configuration and
    \<^verbatim>\<open>Connection.transactional(cb)\<close>;
  \<^item> \<open>calc_sort\<close>: \<^verbatim>\<open>CommitOrderCalculator.sort()\<close> for the nodes and the weighted
    dependencies added so far;
  \<^item> \<open>init_entity\<close>: \<^verbatim>\<open>wrap(entity).init()\<close>; \<open>lock_query\<close>: the locking read of
    \<^verbatim>\<open>lockPessimistic\<close>.
\<close>

record 'w env =
  metadata :: "string \<Rightarrow> EntityMetadata"
  prepareEntity :: "'w state \<Rightarrow> eid \<Rightarrow> (string \<times> val) list"
  diffEntities :: "(string \<times> val) list \<Rightarrow> 'w state \<Rightarrow> eid \<Rightarrow> (string \<times> val) list"
  getPrimaryKeyHash :: "val list \<Rightarrow> string"
  newReference :: "string \<Rightarrow> val \<Rightarrow> Entity"
  super_add :: "eid list \<Rightarrow> eid list \<Rightarrow> eid list"
  super_remove :: "eid list \<Rightarrow> eid list \<Rightarrow> eid list"
  computeChangeSet :: "eid \<Rightarrow> 'w state \<Rightarrow> ('w, ChangeSet option \<times> 'w state) result"
  persistChangeSet :: "ChangeSet \<Rightarrow> 'w state \<Rightarrow> ('w, ChangeSet \<times> 'w state) result"
  callHook :: "eid \<Rightarrow> string \<Rightarrow> 'w state \<Rightarrow> ('w, 'w state) result"
  em_merge :: "eid \<Rightarrow> 'w state \<Rightarrow> ('w, 'w state) result"
  syncCollection :: "cid \<Rightarrow> 'w state \<Rightarrow> ('w, 'w state) result"
  isInTransaction :: "'w state \<Rightarrow> bool"
  supportsTransactions :: bool
  implicitTransactions :: "'w state \<Rightarrow> bool"
  transactional :: "('w state \<Rightarrow> ('w, 'w state) result option) \<Rightarrow> 'w state \<Rightarrow> ('w, 'w state) result option"
  calc_sort :: "string list \<Rightarrow> (string \<times> string \<times> nat) list \<Rightarrow> string list"
  init_entity :: "eid \<Rightarrow> 'w state \<Rightarrow> ('w, 'w state) result"
  lock_query :: "eid \<Rightarrow> LockMode \<Rightarrow> 'w state \<Rightarrow> ('w, 'w state) result"

subsection \<open>Reading and writing the heap\<close>

text \<open>
  A JavaScript reference always points to an object. An index outside an arena has no
  counterpart in the program: it reads as a blank object, and a write to it is dropped.
\<close>

definition blankEntity :: Entity where
  "blankEntity = \<lparr> e_constructor_name = [], e_uuid = [], e_primaryKey = VUndef,
     e_primaryKeys = [], e_serializedPrimaryKey = [], e_initialized = False, e_em = False,
     e_fields = [] \<rparr>"

definition blankProperty :: EntityProperty where
  "blankProperty = \<lparr> p_name = [], p_type = [], p_reference = SCALAR,
     p_wrappedReference = False, p_nullable = False, p_cascade = [], p_orphanRemoval = False,
     p_owner = False, p_mappedBy = [] \<rparr>"

definition blankCollection :: Collection where
  "blankCollection = \<lparr> c_owner = 0, c_property = blankProperty, c_items = [],
     c_snapshot = [], c_initialized = False, c_dirty = False, c_populated = False \<rparr>"

definition entity_at :: "'w state \<Rightarrow> eid \<Rightarrow> Entity" where
  "entity_at st e = (if e < length (entities st) then entities st ! e else blankEntity)"

definition collection_at :: "'w state \<Rightarrow> cid \<Rightarrow> Collection" where
  "collection_at st c = (if c < length (collections st) then collections st ! c else blankCollection)"

definition update_entity :: "eid \<Rightarrow> (Entity \<Rightarrow> Entity) \<Rightarrow> 'w state \<Rightarrow> 'w state" where
  "update_entity e f st = st\<lparr> entities := (entities st)[e := f (entity_at st e)] \<rparr>"

definition update_collection :: "cid \<Rightarrow> (Collection \<Rightarrow> Collection) \<Rightarrow> 'w state \<Rightarrow> 'w state" where
  "update_collection c f st = st\<lparr> collections := (collections st)[c := f (collection_at st c)] \<rparr>"

text \<open>\<^verbatim>\<open>entity[name]\<close>, \<^verbatim>\<open>entity[name] = v\<close> and \<^verbatim>\<open>delete entity[name]\<close>.\<close>

definition get_field :: "'w state \<Rightarrow> eid \<Rightarrow> string \<Rightarrow> val" where
  "get_field st e name = (case map_of (e_fields (entity_at st e)) name of None \<Rightarrow> VUndef | Some v \<Rightarrow> v)"

definition set_field :: "eid \<Rightarrow> string \<Rightarrow> val \<Rightarrow> 'w state \<Rightarrow> 'w state" where
  "set_field e name v = update_entity e (\<lambda>x. x\<lparr> e_fields := AList.update name v (e_fields x) \<rparr>)"

definition delete_field :: "eid \<Rightarrow> string \<Rightarrow> 'w state \<Rightarrow> 'w state" where
  "delete_field e name = update_entity e (\<lambda>x. x\<lparr> e_fields := AList.delete name (e_fields x) \<rparr>)"

text \<open>\<^verbatim>\<open>new Collection(owner)\<close>, stored in the property \<open>prop\<close> of its owner: the new
  object, initialized and empty.\<close>

definition newCollection :: "eid \<Rightarrow> EntityProperty \<Rightarrow> Collection" where
  "newCollection owner prop = \<lparr> c_owner = owner, c_property = prop, c_items = [],
     c_snapshot = [], c_initialized = True, c_dirty = False, c_populated = False \<rparr>"

section \<open>Collection (the relation collection of an entity)\<close>

text \<open>\<^verbatim>\<open>isInitialized(fully = false)\<close>, \<^verbatim>\<open>isDirty()\<close>, \<^verbatim>\<open>setDirty(dirty = true)\<close>,
  \<^verbatim>\<open>takeSnapshot()\<close>.\<close>

definition Collection_isInitialized :: "'w state \<Rightarrow> cid \<Rightarrow> bool \<Rightarrow> bool" where
  "Collection_isInitialized st c fully =
     (if fully
      then c_initialized (collection_at st c)
           \<and> list_all (\<lambda>item. e_initialized (entity_at st item)) (c_items (collection_at st c))
      else c_initialized (collection_at st c))"

definition isDirty :: "'w state \<Rightarrow> cid \<Rightarrow> bool" where
  "isDirty st c = c_dirty (collection_at st c)"

definition setDirty :: "cid \<Rightarrow> bool \<Rightarrow> 'w state \<Rightarrow> 'w state" where
  "setDirty c dirty = update_collection c (\<lambda>x. x\<lparr> c_dirty := dirty \<and> p_owner (c_property x) \<rparr>)"

definition takeSnapshot :: "cid \<Rightarrow> 'w state \<Rightarrow> 'w state" where
  "takeSnapshot c st = setDirty c False (update_collection c (\<lambda>x. x\<lparr> c_snapshot := c_items x \<rparr>) st)"

definition checkInitialized :: "cid \<Rightarrow> 'w state \<Rightarrow> ('w, 'w state) result" where
  "checkInitialized c st =
     (if \<not> Collection_isInitialized st c False then Inl (CollectionNotInitialized, st) else Inr st)"

text \<open>\<^verbatim>\<open>getItems()\<close>: the items, once the collection is known to be initialized.\<close>

definition getItems :: "'w state \<Rightarrow> cid \<Rightarrow> ('w, eid list) result" where
  "getItems st c =
     (case checkInitialized c st of Inl e \<Rightarrow> Inl e | Inr _ \<Rightarrow> Inr (c_items (collection_at st c)))"

text \<open>
  The test of \<^verbatim>\<open>validateModification\<close> on one item:
  \<^verbatim>\<open>!item[mappedBy] || !item[mappedBy].isInitialized()\<close>. A truthy value without an
  \<^verbatim>\<open>isInitialized\<close> method makes the call a \<^verbatim>\<open>TypeError\<close>.
\<close>

definition owningSideNotInitialized :: "'w state \<Rightarrow> string \<Rightarrow> eid \<Rightarrow> error + bool" where
  "owningSideNotInitialized st mappedBy item =
     (let v = get_field st item mappedBy in
      if \<not> truthy v then Inr True
      else (case v of
              VColl c \<Rightarrow> Inr (\<not> Collection_isInitialized st c False)
            | VEnt e \<Rightarrow> Inr (\<not> e_initialized (entity_at st e))
            | VRef e \<Rightarrow> Inr (\<not> e_initialized (entity_at st e))
            | _ \<Rightarrow> Inl TypeError))"

text \<open>\<^verbatim>\<open>items.find(...)\<close> with that test: whether some item satisfies it, stopping at the first.\<close>

fun findNotInitialized :: "'w state \<Rightarrow> string \<Rightarrow> eid list \<Rightarrow> error + bool" where
  "findNotInitialized st mappedBy [] = Inr False"
| "findNotInitialized st mappedBy (item # items) =
     (case owningSideNotInitialized st mappedBy item of
        Inl e \<Rightarrow> Inl e
      | Inr True \<Rightarrow> Inr True
      | Inr False \<Rightarrow> findNotInitialized st mappedBy items)"

definition validateModification :: "cid \<Rightarrow> eid list \<Rightarrow> 'w state \<Rightarrow> ('w, 'w state) result" where
  "validateModification c items st =
     (let prop = c_property (collection_at st c);
          manyToManyInverse = (p_reference prop = MANY_TO_MANY \<and> p_mappedBy prop \<noteq> [])
      in if manyToManyInverse
         then (case findNotInitialized st (p_mappedBy prop) items of
                 Inl e \<Rightarrow> Inl (e, st)
               | Inr True \<Rightarrow> Inl (CannotModifyInverseCollection, st)
               | Inr False \<Rightarrow> Inr st)
         else Inr st)"

text \<open>\<^verbatim>\<open>items.map(item => this.validateItemType(item))\<close>.\<close>

definition validateItemTypes :: "val list \<Rightarrow> 'w state \<Rightarrow> ('w, 'w state) result" where
  "validateItemTypes items st = (if list_all isEntity items then Inr st else Inl (NotEntity, st))"

fun the_entity :: "val \<Rightarrow> eid" where
  "the_entity (VEnt e) = e"
| "the_entity _ = 0"

text \<open>
  \<^verbatim>\<open>cleanUpStack(stack, entity)\<close>: a \<^verbatim>\<open>for ... in\<close> over the indices of the array that
  splices the current element out when it is the entity. After a splice the next element
  has moved to the current index, and the loop goes on with the index after it: the
  element following a removed one is not looked at.
\<close>

fun cleanUpStack :: "eid list \<Rightarrow> eid \<Rightarrow> eid list" where
  "cleanUpStack [] entity = []"
| "cleanUpStack (x # xs) entity =
     (if x = entity
      then (case xs of [] \<Rightarrow> [] | y # ys \<Rightarrow> y # cleanUpStack ys entity)
      else x # cleanUpStack xs entity)"

text \<open>\<^verbatim>\<open>UnitOfWork.scheduleOrphanRemoval\<close> and \<^verbatim>\<open>UnitOfWork.cancelOrphanRemoval\<close>.\<close>

definition scheduleOrphanRemoval :: "eid \<Rightarrow> 'w state \<Rightarrow> 'w state" where
  "scheduleOrphanRemoval entity st = st\<lparr> orphanRemoveStack := orphanRemoveStack st @ [entity] \<rparr>"

definition cancelOrphanRemoval :: "eid \<Rightarrow> 'w state \<Rightarrow> 'w state" where
  "cancelOrphanRemoval entity st = st\<lparr> orphanRemoveStack := cleanUpStack (orphanRemoveStack st) entity \<rparr>"

text \<open>The private \<^verbatim>\<open>Collection.cancelOrphanRemoval(items)\<close>: nothing without \<^verbatim>\<open>__em\<close> on the owner.\<close>

definition Collection_cancelOrphanRemoval :: "cid \<Rightarrow> eid list \<Rightarrow> 'w state \<Rightarrow> 'w state" where
  "Collection_cancelOrphanRemoval c items st =
     (if \<not> e_em (entity_at st (c_owner (collection_at st c))) then st
      else foldl (\<lambda>s item. cancelOrphanRemoval item s) st items)"

datatype modifyMethod = method_add | method_remove

text \<open>\<^verbatim>\<open>modify(method, items)\<close>: check, validate, the inherited method, then \<^verbatim>\<open>setDirty()\<close>.\<close>

definition modify :: "'w env \<Rightarrow> cid \<Rightarrow> modifyMethod \<Rightarrow> eid list \<Rightarrow> 'w state \<Rightarrow> ('w, 'w state) result" where
  "modify env c method items st =
     (case checkInitialized c st of
        Inl e \<Rightarrow> Inl e
      | Inr st1 \<Rightarrow>
         (case validateModification c items st1 of
            Inl e \<Rightarrow> Inl e
          | Inr st2 \<Rightarrow>
              Inr (setDirty c True
                (update_collection c
                   (\<lambda>x. x\<lparr> c_items := (case method of
                                          method_add \<Rightarrow> super_add env (c_items x) items
                                        | method_remove \<Rightarrow> super_remove env (c_items x) items) \<rparr>)
                   st2))))"

definition Collection_add :: "'w env \<Rightarrow> cid \<Rightarrow> val list \<Rightarrow> 'w state \<Rightarrow> ('w, 'w state) result" where
  "Collection_add env c items st =
     (case validateItemTypes items st of
        Inl e \<Rightarrow> Inl e
      | Inr st1 \<Rightarrow>
         (case modify env c method_add (map the_entity items) st1 of
            Inl e \<Rightarrow> Inl e
          | Inr st2 \<Rightarrow> Inr (Collection_cancelOrphanRemoval c (map the_entity items) st2)))"

definition Collection_remove :: "'w env \<Rightarrow> cid \<Rightarrow> eid list \<Rightarrow> 'w state \<Rightarrow> ('w, 'w state) result" where
  "Collection_remove env c items st =
     (case modify env c method_remove items st of
        Inl e \<Rightarrow> Inl e
      | Inr st1 \<Rightarrow>
          Inr (if p_orphanRemoval (c_property (collection_at st1 c))
                  \<and> e_em (entity_at st1 (c_owner (collection_at st1 c)))
               then foldl (\<lambda>s item. scheduleOrphanRemoval item s) st1 items
               else st1))"

text \<open>
  \<^verbatim>\<open>super.set(items)\<close>. The class \<^verbatim>\<open>ArrayCollection\<close> is not part of the sources. Its
  \<^verbatim>\<open>set\<close> is \<^verbatim>\<open>this.removeAll(); this.add(...items)\<close>, and its \<^verbatim>\<open>removeAll\<close> is
  \<^verbatim>\<open>this.remove(...this.items)\<close>. On a \<^verbatim>\<open>Collection\<close> the two calls are dispatched to the
  methods \<^verbatim>\<open>remove\<close> and \<^verbatim>\<open>add\<close> above: before the new items are added, the collection is
  checked to be initialized, the current items are validated, removed, and scheduled for
  orphan removal where the property asks for it.
\<close>

definition ArrayCollection_set :: "'w env \<Rightarrow> cid \<Rightarrow> val list \<Rightarrow> 'w state \<Rightarrow> ('w, 'w state) result" where
  "ArrayCollection_set env c items st =
     (case Collection_remove env c (c_items (collection_at st c)) st of
        Inl e \<Rightarrow> Inl e
      | Inr st1 \<Rightarrow> Collection_add env c items st1)"

text \<open>\<^verbatim>\<open>set(items)\<close>: the item types, the validation of the new items, the inherited
  \<^verbatim>\<open>set\<close>, \<^verbatim>\<open>setDirty()\<close> and the cancelling of the orphan removals.\<close>

definition Collection_set :: "'w env \<Rightarrow> cid \<Rightarrow> val list \<Rightarrow> 'w state \<Rightarrow> ('w, 'w state) result" where
  "Collection_set env c items st =
     (case validateItemTypes items st of
        Inl e \<Rightarrow> Inl e
      | Inr st1 \<Rightarrow>
         (case validateModification c (map the_entity items) st1 of
            Inl e \<Rightarrow> Inl e
          | Inr st2 \<Rightarrow>
             (case ArrayCollection_set env c items st2 of
                Inl e \<Rightarrow> Inl e
              | Inr st3 \<Rightarrow>
                  Inr (Collection_cancelOrphanRemoval c (map the_entity items) (setDirty c True st3)))))"

text \<open>The calls a client can make on a collection, and a run of such calls, each on a
  collection of its own: a call that throws leaves the state as it was at the throw, and
  the run goes on.\<close>

datatype collectionCall =
    CallAdd "val list"
  | CallSet "val list"
  | CallRemove "eid list"
  | CallSetDirty bool
  | CallTakeSnapshot

definition collectionCall_run :: "'w env \<Rightarrow> cid \<Rightarrow> collectionCall \<Rightarrow> 'w state \<Rightarrow> ('w, 'w state) result" where
  "collectionCall_run env c call st =
     (case call of
        CallAdd items \<Rightarrow> Collection_add env c items st
      | CallSet items \<Rightarrow> Collection_set env c items st
      | CallRemove items \<Rightarrow> Collection_remove env c items st
      | CallSetDirty dirty \<Rightarrow> Inr (setDirty c dirty st)
      | CallTakeSnapshot \<Rightarrow> Inr (takeSnapshot c st))"

definition state_after :: "('w, 'w state) result \<Rightarrow> 'w state" where
  "state_after r = (case r of Inl (e, st) \<Rightarrow> st | Inr st \<Rightarrow> st)"

fun collectionCalls_run :: "'w env \<Rightarrow> (cid \<times> collectionCall) list \<Rightarrow> 'w state \<Rightarrow> 'w state" where
  "collectionCalls_run env [] st = st"
| "collectionCalls_run env ((c, call) # calls) st =
     collectionCalls_run env calls (state_after (collectionCall_run env c call st))"

text \<open>The invariant of a collection on the non-owning side: its property is not the owner,
  and it is not dirty.\<close>

definition inverseClean :: "'w state \<Rightarrow> cid \<Rightarrow> bool" where
  "inverseClean st c \<longleftrightarrow> \<not> p_owner (c_property (collection_at st c)) \<and> \<not> c_dirty (collection_at st c)"

text \<open>What \<^verbatim>\<open>validateModification\<close> looks at on an item: the value of the owning side's
  property is a loaded collection, or is a collection or nothing at all.\<close>

definition owningSideLoaded :: "'w state \<Rightarrow> string \<Rightarrow> eid \<Rightarrow> bool" where
  "owningSideLoaded st mappedBy item =
     (case get_field st item mappedBy of
        VColl c \<Rightarrow> c_initialized (collection_at st c)
      | _ \<Rightarrow> False)"

definition owningSideWellTyped :: "'w state \<Rightarrow> string \<Rightarrow> eid \<Rightarrow> bool" where
  "owningSideWellTyped st mappedBy item =
     (case get_field st item mappedBy of
        VUndef \<Rightarrow> True | VNull \<Rightarrow> True | VColl c \<Rightarrow> True | _ \<Rightarrow> False)"

section \<open>UnitOfWork\<close>

subsection \<open>Identity map and stacks\<close>

text \<open>The key of an entity in the identity map:
  \<^verbatim>\<open>`${entity.constructor.name}-${wrap(entity).__serializedPrimaryKey}`\<close>.\<close>

definition identityKey :: "'w state \<Rightarrow> eid \<Rightarrow> string" where
  "identityKey st entity =
     e_constructor_name (entity_at st entity) @ ''-'' @ e_serializedPrimaryKey (entity_at st entity)"

text \<open>\<^verbatim>\<open>Utils.asArray\<close> and \<^verbatim>\<open>getById(entityName, id)\<close>; \<open>None\<close> is \<^verbatim>\<open>undefined\<close>.\<close>

fun asArray :: "val \<Rightarrow> val list" where
  "asArray VUndef = []"
| "asArray (VArr xs) = xs"
| "asArray v = [v]"

definition getById :: "'w env \<Rightarrow> 'w state \<Rightarrow> string \<Rightarrow> val \<Rightarrow> eid option" where
  "getById env st entityName pk =
     map_of (identityMap st) (entityName @ ''-'' @ getPrimaryKeyHash env (asArray pk))"

definition unsetIdentity :: "eid \<Rightarrow> 'w state \<Rightarrow> 'w state" where
  "unsetIdentity entity st =
     st\<lparr> identityMap := AList.delete (identityKey st entity) (identityMap st),
         identifierMap := AList.delete (e_uuid (entity_at st entity)) (identifierMap st),
         originalEntityData := AList.delete (e_uuid (entity_at st entity)) (originalEntityData st) \<rparr>"

definition postCommitCleanup :: "'w state \<Rightarrow> 'w state" where
  "postCommitCleanup st =
     st\<lparr> identifierMap := [], persistStack := [], removeStack := [], orphanRemoveStack := [],
         changeSets := [], collectionUpdates := [], extraUpdates := [] \<rparr>"

definition clear :: "'w state \<Rightarrow> 'w state" where
  "clear st = postCommitCleanup (st\<lparr> identityMap := [], originalEntityData := [] \<rparr>)"

subsection \<open>Cascading persist, merge and remove\<close>

definition shouldCascade :: "EntityProperty \<Rightarrow> Cascade \<Rightarrow> bool" where
  "shouldCascade prop type =
     (if type = REMOVE \<and> p_orphanRemoval prop then True
      else type \<in> set (p_cascade prop) \<or> Cascade_ALL \<in> set (p_cascade prop))"

text \<open>\<^verbatim>\<open>unwrapReference(entity, prop)\<close>: the property's value, a \<^verbatim>\<open>Reference\<close> unwrapped.\<close>

definition unwrapReference :: "'w state \<Rightarrow> eid \<Rightarrow> EntityProperty \<Rightarrow> val" where
  "unwrapReference st entity prop =
     (case get_field st entity (p_name prop) of VRef e \<Rightarrow> VEnt e | v \<Rightarrow> v)"

text \<open>
  Modelled from the spec: \<^verbatim>\<open>em.getReference(type, key, wrapped)\<close> of the
  \<^verbatim>\<open>EntityManager\<close>, which is not part of the sources. The spec has a raw key
  ``replaced with a lazy reference built from that key'': a new entity object of that type
  and key, not initialized, with no property set, wrapped in a \<^verbatim>\<open>Reference\<close> when asked.
\<close>

definition getReference :: "'w env \<Rightarrow> string \<Rightarrow> val \<Rightarrow> bool \<Rightarrow> 'w state \<Rightarrow> val \<times> 'w state" where
  "getReference env entityName pk wrapped st =
     (let e = length (entities st);
          lazy = (newReference env entityName pk)\<lparr> e_constructor_name := entityName,
                    e_primaryKey := pk, e_initialized := False, e_fields := [] \<rparr>
      in (if wrapped then VRef e else VEnt e, st\<lparr> entities := entities st @ [lazy] \<rparr>))"

fun isArray :: "val \<Rightarrow> bool" where
  "isArray (VArr xs) = True"
| "isArray _ = False"

definition fixMissingReference :: "'w env \<Rightarrow> eid \<Rightarrow> EntityProperty \<Rightarrow> 'w state \<Rightarrow> ('w, 'w state) result" where
  "fixMissingReference env entity prop st =
     (let reference = unwrapReference st entity prop;
          st1 = (if p_reference prop \<in> {MANY_TO_ONE, ONE_TO_ONE} \<and> truthy reference \<and> \<not> isEntity reference
                 then (case getReference env (p_type prop) reference (p_wrappedReference prop) st of
                         (r, s) \<Rightarrow> set_field entity (p_name prop) r s)
                 else st);
          isCollection = (p_reference prop \<in> {ONE_TO_MANY, MANY_TO_MANY})
      in if isCollection \<and> isArray reference
         then (let c = length (collections st1);
                   st2 = st1\<lparr> collections := collections st1 @ [newCollection entity prop] \<rparr>;
                   st3 = set_field entity (p_name prop) (VColl c) st2
               in Collection_set env c (asArray reference) st3)
         else Inr st1)"

text \<open>
  \<^verbatim>\<open>persist\<close>, \<^verbatim>\<open>remove\<close>, \<^verbatim>\<open>merge\<close>, \<^verbatim>\<open>cascade\<close> and \<^verbatim>\<open>cascadeReference\<close> call each other.
  The first argument is fuel: every call of one method by another takes one unit, and a
  call without fuel is \<open>None\<close>. \<open>visited\<close> is the array the callers share: it is passed
  in and returned. \<open>cascadeProperties\<close> is the \<^verbatim>\<open>for\<close> loop of \<^verbatim>\<open>cascade\<close> over the
  non-scalar properties, \<open>cascadeItems\<close> the \<^verbatim>\<open>forEach\<close> of \<^verbatim>\<open>cascadeReference\<close> over the
  items of a collection.
\<close>

function persist :: "nat \<Rightarrow> 'w env \<Rightarrow> eid \<Rightarrow> eid list \<Rightarrow> bool \<Rightarrow> 'w state \<Rightarrow> ('w, eid list \<times> 'w state) result option"
  and remove :: "nat \<Rightarrow> 'w env \<Rightarrow> eid \<Rightarrow> eid list \<Rightarrow> 'w state \<Rightarrow> ('w, eid list \<times> 'w state) result option"
  and merge :: "nat \<Rightarrow> 'w env \<Rightarrow> eid \<Rightarrow> eid list \<Rightarrow> bool \<Rightarrow> 'w state \<Rightarrow> ('w, eid list \<times> 'w state) result option"
  and cascade :: "nat \<Rightarrow> 'w env \<Rightarrow> eid \<Rightarrow> Cascade \<Rightarrow> eid list \<Rightarrow> bool \<Rightarrow> 'w state \<Rightarrow> ('w, eid list \<times> 'w state) result option"
  and cascadeProperties :: "nat \<Rightarrow> 'w env \<Rightarrow> eid \<Rightarrow> EntityProperty list \<Rightarrow> Cascade \<Rightarrow> eid list \<Rightarrow> bool \<Rightarrow> 'w state \<Rightarrow> ('w, eid list \<times> 'w state) result option"
  and cascadeReference :: "nat \<Rightarrow> 'w env \<Rightarrow> eid \<Rightarrow> EntityProperty \<Rightarrow> Cascade \<Rightarrow> eid list \<Rightarrow> bool \<Rightarrow> 'w state \<Rightarrow> ('w, eid list \<times> 'w state) result option"
  and cascadeItems :: "nat \<Rightarrow> 'w env \<Rightarrow> eid list \<Rightarrow> Cascade \<Rightarrow> eid list \<Rightarrow> bool \<Rightarrow> 'w state \<Rightarrow> ('w, eid list \<times> 'w state) result option"
where
  "persist 0 env entity visited checkRemoveStack st = None"
| "persist (Suc n) env entity visited checkRemoveStack st =
     (if entity \<in> set (persistStack st) then Some (Inr (visited, st))
      else if checkRemoveStack \<and> entity \<in> set (removeStack st) then Some (Inr (visited, st))
      else (let st1 = (if \<not> truthy (e_primaryKey (entity_at st entity))
                       then st\<lparr> identifierMap := AList.update (e_uuid (entity_at st entity))
                                   (EntityIdentifier VUndef) (identifierMap st) \<rparr>
                       else st);
                st2 = st1\<lparr> persistStack := persistStack st1 @ [entity] \<rparr>;
                st3 = st2\<lparr> removeStack := cleanUpStack (removeStack st2) entity \<rparr>
            in cascade n env entity PERSIST visited checkRemoveStack st3))"
| "remove 0 env entity visited st = None"
| "remove (Suc n) env entity visited st =
     (if entity \<in> set (removeStack st) then Some (Inr (visited, st))
      else (let st1 = (if truthy (e_primaryKey (entity_at st entity))
                       then st\<lparr> removeStack := removeStack st @ [entity] \<rparr>
                       else st);
                st2 = st1\<lparr> persistStack := cleanUpStack (persistStack st1) entity \<rparr>;
                st3 = unsetIdentity entity st2
            in cascade n env entity REMOVE visited False st3))"
| "merge 0 env entity visited mergeData st = None"
| "merge (Suc n) env entity visited mergeData st =
     (let st1 = update_entity entity (\<lambda>x. x\<lparr> e_em := True \<rparr>) st in
      if \<not> truthy (e_primaryKey (entity_at st1 entity)) then Some (Inr (visited, st1))
      else (let st2 = st1\<lparr> identityMap := AList.update (identityKey st1 entity) entity (identityMap st1) \<rparr>;
                st3 = (if mergeData
                       then st2\<lparr> originalEntityData := AList.update (e_uuid (entity_at st2 entity))
                                   (prepareEntity env st2 entity) (originalEntityData st2) \<rparr>
                       else st2)
            in cascade n env entity MERGE visited False st3))"
| "cascade 0 env entity type visited checkRemoveStack st = None"
| "cascade (Suc n) env entity type visited checkRemoveStack st =
     (if entity \<in> set visited then Some (Inr (visited, st))
      else bindR
        (case type of
           PERSIST \<Rightarrow> persist n env entity (visited @ [entity]) checkRemoveStack st
         | MERGE \<Rightarrow> merge n env entity (visited @ [entity]) True st
         | REMOVE \<Rightarrow> remove n env entity (visited @ [entity]) st
         | Cascade_ALL \<Rightarrow> Some (Inr (visited @ [entity], st)))
        (\<lambda>(visited1, st1).
           cascadeProperties n env entity
             (filter (\<lambda>prop. p_reference prop \<noteq> SCALAR)
                (m_properties (metadata env (e_constructor_name (entity_at st1 entity)))))
             type visited1 checkRemoveStack st1))"
| "cascadeProperties n env entity [] type visited checkRemoveStack st = Some (Inr (visited, st))"
| "cascadeProperties n env entity (prop # props) type visited checkRemoveStack st =
     bindR (cascadeReference n env entity prop type visited checkRemoveStack st)
       (\<lambda>(visited1, st1). cascadeProperties n env entity props type visited1 checkRemoveStack st1)"
| "cascadeReference 0 env entity prop type visited checkRemoveStack st = None"
| "cascadeReference (Suc n) env entity prop type visited checkRemoveStack st =
     (case fixMissingReference env entity prop st of
        Inl e \<Rightarrow> Some (Inl e)
      | Inr st1 \<Rightarrow>
         (if \<not> shouldCascade prop type then Some (Inr (visited, st1))
          else (let reference = unwrapReference st1 entity prop in
            if p_reference prop \<in> {MANY_TO_ONE, ONE_TO_ONE} \<and> truthy reference
            then (case reference of
                    VEnt e \<Rightarrow> cascade n env e type visited checkRemoveStack st1
                  | _ \<Rightarrow> Some (Inl (TypeError, st1)))
            else if p_reference prop \<in> {ONE_TO_MANY, MANY_TO_MANY} \<and> truthy reference
            then (case reference of
                    VColl c \<Rightarrow>
                      (if Collection_isInitialized st1 c (type = PERSIST)
                       then cascadeItems n env (c_items (collection_at st1 c)) type visited checkRemoveStack st1
                       else Some (Inr (visited, st1)))
                  | VEnt e \<Rightarrow>
                      (if e_initialized (entity_at st1 e) then Some (Inl (TypeError, st1))
                       else Some (Inr (visited, st1)))
                  | _ \<Rightarrow> Some (Inl (TypeError, st1)))
            else Some (Inr (visited, st1)))))"
| "cascadeItems n env [] type visited checkRemoveStack st = Some (Inr (visited, st))"
| "cascadeItems n env (item # items) type visited checkRemoveStack st =
     bindR (cascade n env item type visited checkRemoveStack st)
       (\<lambda>(visited1, st1). cascadeItems n env items type visited1 checkRemoveStack st1)"
  by pat_completeness auto

termination
  apply (relation "inv_image (less_than <*lex*> less_than)
        (\<lambda>x. case x of
           Inl (Inl (n, _)) \<Rightarrow> (n, 0)
         | Inl (Inr (Inl (n, _))) \<Rightarrow> (n, 0)
         | Inl (Inr (Inr (n, _))) \<Rightarrow> (n, 0)
         | Inr (Inl (Inl (n, _))) \<Rightarrow> (n, 0)
         | Inr (Inl (Inr (n, env, entity, props, _))) \<Rightarrow> (n, Suc (length props))
         | Inr (Inr (Inl (n, _))) \<Rightarrow> (n, 0)
         | Inr (Inr (Inr (n, env, items, _))) \<Rightarrow> (n, Suc (length items)))")
  apply (intro wf_inv_image wf_lex_prod wf_less_than)
  apply simp_all
  done

text \<open>The states in which \<^verbatim>\<open>persist\<close>, \<^verbatim>\<open>remove\<close> and \<^verbatim>\<open>merge\<close> call \<^verbatim>\<open>cascade\<close>.\<close>

definition persistEntered :: "'w state \<Rightarrow> eid \<Rightarrow> 'w state" where
  "persistEntered st entity =
     (let st1 = (if \<not> truthy (e_primaryKey (entity_at st entity))
                 then st\<lparr> identifierMap := AList.update (e_uuid (entity_at st entity))
                             (EntityIdentifier VUndef) (identifierMap st) \<rparr>
                 else st);
          st2 = st1\<lparr> persistStack := persistStack st1 @ [entity] \<rparr>
      in st2\<lparr> removeStack := cleanUpStack (removeStack st2) entity \<rparr>)"

definition removeEntered :: "'w state \<Rightarrow> eid \<Rightarrow> 'w state" where
  "removeEntered st entity =
     (let st1 = (if truthy (e_primaryKey (entity_at st entity))
                 then st\<lparr> removeStack := removeStack st @ [entity] \<rparr>
                 else st);
          st2 = st1\<lparr> persistStack := cleanUpStack (persistStack st1) entity \<rparr>
      in unsetIdentity entity st2)"

definition mergeEntered :: "'w env \<Rightarrow> 'w state \<Rightarrow> eid \<Rightarrow> bool \<Rightarrow> 'w state" where
  "mergeEntered env st1 entity mergeData =
     (let st2 = st1\<lparr> identityMap := AList.update (identityKey st1 entity) entity (identityMap st1) \<rparr>
      in if mergeData
         then st2\<lparr> originalEntityData := AList.update (e_uuid (entity_at st2 entity))
                     (prepareEntity env st2 entity) (originalEntityData st2) \<rparr>
         else st2)"

text \<open>
  What fixing up a property leaves alone: everything of the unit of work but the
  orphan-removal stack (the heap and that stack may change).
\<close>

definition sameUnitOfWork :: "'w state \<Rightarrow> 'w state \<Rightarrow> bool" where
  "sameUnitOfWork st st' \<longleftrightarrow>
     identityMap st' = identityMap st \<and> originalEntityData st' = originalEntityData st
     \<and> identifierMap st' = identifierMap st \<and> persistStack st' = persistStack st
     \<and> removeStack st' = removeStack st \<and> changeSets st' = changeSets st
     \<and> collectionUpdates st' = collectionUpdates st \<and> extraUpdates st' = extraUpdates st
     \<and> world st' = world st"

text \<open>
  The invariant of the two stacks: no entity twice on the persist stack or on the remove
  stack, and none on both. \<^verbatim>\<open>persist\<close> is the only method that pushes on the persist
  stack, \<^verbatim>\<open>remove\<close> the only one that pushes on the remove stack, each after checking
  \<^verbatim>\<open>includes\<close> and each cleaning the other stack.
\<close>

definition stacksInvariant :: "'w state \<Rightarrow> bool" where
  "stacksInvariant st \<longleftrightarrow>
     distinct (persistStack st) \<and> distinct (removeStack st)
     \<and> set (persistStack st) \<inter> set (removeStack st) = {}"

text \<open>An entity that is gone from the persist stack and from the three dictionaries, under
  the keys \<open>k\<close> (identity) and \<open>u\<close> (uuid).\<close>

definition identityDropped :: "eid \<Rightarrow> string \<Rightarrow> string \<Rightarrow> 'w state \<Rightarrow> bool" where
  "identityDropped entity k u st \<longleftrightarrow>
     entity \<notin> set (persistStack st) \<and> map_of (identityMap st) k = None
     \<and> map_of (identifierMap st) u = None \<and> map_of (originalEntityData st) u = None"

text \<open>
  Relations between the visited list and state before a call of the cascade walk and
  after it, for a walk of kind \<open>t\<close>: a persist walk only adds to the persist stack and
  only takes from the remove stack; every walk keeps the invariant of the stacks; a
  remove walk keeps an identity dropped; every walk appends distinct new entities to
  \<open>visited\<close>.
\<close>

definition stackGrowth :: "Cascade \<Rightarrow> eid list \<times> 'w state \<Rightarrow> eid list \<times> 'w state \<Rightarrow> bool" where
  "stackGrowth t a b \<longleftrightarrow>
     (t = PERSIST \<longrightarrow> set (persistStack (snd a)) \<subseteq> set (persistStack (snd b))
                     \<and> set (removeStack (snd b)) \<subseteq> set (removeStack (snd a)))"

definition keepsInvariant :: "Cascade \<Rightarrow> eid list \<times> 'w state \<Rightarrow> eid list \<times> 'w state \<Rightarrow> bool" where
  "keepsInvariant t a b \<longleftrightarrow> (stacksInvariant (snd a) \<longrightarrow> stacksInvariant (snd b))"

definition keepsDropped :: "eid \<Rightarrow> string \<Rightarrow> string \<Rightarrow> Cascade \<Rightarrow> eid list \<times> 'w state \<Rightarrow> eid list \<times> 'w state \<Rightarrow> bool" where
  "keepsDropped entity k u t a b \<longleftrightarrow>
     (t = REMOVE \<longrightarrow> identityDropped entity k u (snd a) \<longrightarrow> identityDropped entity k u (snd b))"


text \<open>
  The measure of the cascade walk: the entities that have some property set and are not
  yet in \<open>visited\<close>. An entity without any property set has nothing to cascade into; such
  are the lazy references the walk itself creates.
\<close>

definition pending :: "'w state \<Rightarrow> eid list \<Rightarrow> eid set" where
  "pending st visited = {e. e_fields (entity_at st e) \<noteq> [] \<and> e \<notin> set visited}"

definition pendingShrinks :: "Cascade \<Rightarrow> eid list \<times> 'w state \<Rightarrow> eid list \<times> 'w state \<Rightarrow> bool" where
  "pendingShrinks t a b \<longleftrightarrow> pending (snd b) (fst b) \<subseteq> pending (snd a) (fst a)"

subsection \<open>Discovering new entities and computing change sets\<close>

definition hasSnapshot :: "'w state \<Rightarrow> eid \<Rightarrow> bool" where
  "hasSnapshot st item = (map_of (originalEntityData st) (e_uuid (entity_at st item)) \<noteq> None)"

definition isCollectionSelfReferenced :: "'w state \<Rightarrow> cid \<Rightarrow> eid list \<Rightarrow> ('w, bool) result" where
  "isCollectionSelfReferenced st collection visited =
     (case getItems st collection of
        Inl e \<Rightarrow> Inl e
      | Inr items \<Rightarrow>
          Inr (list_ex (\<lambda>item. item \<in> set visited) (filter (\<lambda>item. \<not> hasSnapshot st item) items)))"

text \<open>
  \<^verbatim>\<open>findNewEntities\<close> with \<^verbatim>\<open>processReference\<close>, \<^verbatim>\<open>processToOneReference\<close> and
  \<^verbatim>\<open>processToManyReference\<close>, with fuel as above. \<open>findProperties\<close> is the \<^verbatim>\<open>for\<close> loop
  of \<^verbatim>\<open>findNewEntities\<close> over the properties, \<open>processItems\<close> the \<^verbatim>\<open>forEach\<close> of
  \<^verbatim>\<open>processToManyReference\<close>. \<^verbatim>\<open>Utils.isCollection(reference, prop, MANY_TO_MANY)\<close> holds of
  a collection in a many-to-many property.
\<close>

function findNewEntities :: "nat \<Rightarrow> 'w env \<Rightarrow> eid \<Rightarrow> eid list \<Rightarrow> 'w state \<Rightarrow> ('w, eid list \<times> 'w state) result option"
  and findProperties :: "nat \<Rightarrow> 'w env \<Rightarrow> eid \<Rightarrow> EntityProperty list \<Rightarrow> eid list \<Rightarrow> 'w state \<Rightarrow> ('w, eid list \<times> 'w state) result option"
  and processReference :: "nat \<Rightarrow> 'w env \<Rightarrow> eid \<Rightarrow> EntityProperty \<Rightarrow> val \<Rightarrow> eid list \<Rightarrow> 'w state \<Rightarrow> ('w, eid list \<times> 'w state) result option"
  and processToOneReference :: "nat \<Rightarrow> 'w env \<Rightarrow> val \<Rightarrow> eid list \<Rightarrow> 'w state \<Rightarrow> ('w, eid list \<times> 'w state) result option"
  and processToManyReference :: "nat \<Rightarrow> 'w env \<Rightarrow> cid \<Rightarrow> eid list \<Rightarrow> eid \<Rightarrow> EntityProperty \<Rightarrow> 'w state \<Rightarrow> ('w, eid list \<times> 'w state) result option"
  and processItems :: "nat \<Rightarrow> 'w env \<Rightarrow> eid list \<Rightarrow> eid list \<Rightarrow> 'w state \<Rightarrow> ('w, eid list \<times> 'w state) result option"
where
  "findNewEntities 0 env entity visited st = None"
| "findNewEntities (Suc n) env entity visited st =
     (if entity \<in> set visited then Some (Inr (visited, st))
      else if \<not> e_initialized (entity_at st entity) then Some (Inr (visited @ [entity], st))
      else (let st1 = (if \<not> truthy (e_primaryKey (entity_at st entity))
                          \<and> map_of (identifierMap st) (e_uuid (entity_at st entity)) = None
                       then st\<lparr> identifierMap := AList.update (e_uuid (entity_at st entity))
                                   (EntityIdentifier VUndef) (identifierMap st) \<rparr>
                       else st)
            in bindR
              (findProperties n env entity
                 (m_properties (metadata env (e_constructor_name (entity_at st1 entity))))
                 (visited @ [entity]) st1)
              (\<lambda>(visited1, st2).
                 case computeChangeSet env entity st2 of
                   Inl e \<Rightarrow> Some (Inl e)
                 | Inr (None, st3) \<Rightarrow> Some (Inr (visited1, st3))
                 | Inr (Some changeSet, st3) \<Rightarrow>
                     (let st4 = st3\<lparr> changeSets := changeSets st3 @ [changeSet] \<rparr>;
                          st5 = st4\<lparr> persistStack := cleanUpStack (persistStack st4) entity \<rparr>
                      in Some (Inr (visited1,
                           st5\<lparr> originalEntityData := AList.update (e_uuid (entity_at st5 entity))
                                  (prepareEntity env st5 entity) (originalEntityData st5) \<rparr>))))))"
| "findProperties n env entity [] visited st = Some (Inr (visited, st))"
| "findProperties n env entity (prop # props) visited st =
     bindR (processReference n env entity prop (unwrapReference st entity prop) visited st)
       (\<lambda>(visited1, st1). findProperties n env entity props visited1 st1)"
| "processReference 0 env parent prop reference visited st = None"
| "processReference (Suc n) env parent prop reference visited st =
     (let isToOne = (p_reference prop = MANY_TO_ONE \<or> p_reference prop = ONE_TO_ONE) in
      if isToOne \<and> truthy reference then processToOneReference n env reference visited st
      else (case reference of
              VColl c \<Rightarrow>
                (if p_reference prop = MANY_TO_MANY \<and> isDirty st c
                 then processToManyReference n env c visited parent prop st
                 else Some (Inr (visited, st)))
            | _ \<Rightarrow> Some (Inr (visited, st))))"
| "processToOneReference 0 env reference visited st = None"
| "processToOneReference (Suc n) env reference visited st =
     (case reference of
        VEnt e \<Rightarrow>
          (if \<not> hasSnapshot st e then findNewEntities n env e visited st
           else Some (Inr (visited, st)))
      | _ \<Rightarrow> Some (Inl (TypeError, st)))"
| "processToManyReference 0 env reference visited parent prop st = None"
| "processToManyReference (Suc n) env reference visited parent prop st =
     (case isCollectionSelfReferenced st reference visited of
        Inl e \<Rightarrow> Some (Inl e)
      | Inr True \<Rightarrow>
          (let st1 = st\<lparr> extraUpdates := extraUpdates st @ [(parent, p_name prop, VColl reference)] \<rparr>;
               c = length (collections st1);
               st2 = st1\<lparr> collections := collections st1 @ [newCollection parent prop] \<rparr>
           in Some (Inr (visited, set_field parent (p_name prop) (VColl c) st2)))
      | Inr False \<Rightarrow>
          (case getItems st reference of
             Inl e \<Rightarrow> Some (Inl e)
           | Inr items \<Rightarrow>
               processItems n env (filter (\<lambda>item. \<not> hasSnapshot st item) items) visited st))"
| "processItems n env [] visited st = Some (Inr (visited, st))"
| "processItems n env (item # items) visited st =
     bindR (findNewEntities n env item visited st)
       (\<lambda>(visited1, st1). processItems n env items visited1 st1)"
  by pat_completeness auto

termination
  apply (relation "inv_image (less_than <*lex*> less_than)
        (\<lambda>x. case x of
           Inl (Inl (n, _)) \<Rightarrow> (n, 0)
         | Inl (Inr (Inl (n, env, entity, props, _))) \<Rightarrow> (n, Suc (length props))
         | Inl (Inr (Inr (n, _))) \<Rightarrow> (n, 0)
         | Inr (Inl (n, _)) \<Rightarrow> (n, 0)
         | Inr (Inr (Inl (n, _))) \<Rightarrow> (n, 0)
         | Inr (Inr (Inr (n, env, items, _))) \<Rightarrow> (n, Suc (length items)))")
  apply (intro wf_inv_image wf_lex_prod wf_less_than)
  apply simp_all
  done

text \<open>
  \<^verbatim>\<open>computeChangeSets\<close>. \<open>persistEach\<close> is
  \<^verbatim>\<open>.forEach(entity => this.persist(entity, [], true))\<close>, \<open>drainPersistStack\<close> the
  \<^verbatim>\<open>while (this.persistStack.length)\<close> loop, \<open>removeEach\<close> the loop over a copy of the
  orphan-removal stack.
\<close>

fun persistEach :: "nat \<Rightarrow> 'w env \<Rightarrow> eid list \<Rightarrow> 'w state \<Rightarrow> ('w, 'w state) result option" where
  "persistEach n env [] st = Some (Inr st)"
| "persistEach n env (entity # rest) st =
     bindR (persist n env entity [] True st) (\<lambda>(visited, st1). persistEach n env rest st1)"

fun drainPersistStack :: "nat \<Rightarrow> 'w env \<Rightarrow> 'w state \<Rightarrow> ('w, 'w state) result option" where
  "drainPersistStack 0 env st = None"
| "drainPersistStack (Suc n) env st =
     (case persistStack st of
        [] \<Rightarrow> Some (Inr st)
      | entity # rest \<Rightarrow>
          bindR (findNewEntities n env entity [] (st\<lparr> persistStack := rest \<rparr>))
            (\<lambda>(visited, st1). drainPersistStack n env st1))"

fun removeEach :: "nat \<Rightarrow> 'w env \<Rightarrow> eid list \<Rightarrow> 'w state \<Rightarrow> ('w, 'w state) result option" where
  "removeEach n env [] st = Some (Inr st)"
| "removeEach n env (entity # rest) st =
     bindR (remove n env entity [] st) (\<lambda>(visited, st1). removeEach n env rest st1)"

definition deleteChangeSet :: "'w env \<Rightarrow> 'w state \<Rightarrow> eid \<Rightarrow> ChangeSet" where
  "deleteChangeSet env st entity =
     (let meta = metadata env (e_constructor_name (entity_at st entity)) in
      \<lparr> cs_name = m_name meta, cs_collection = m_collection meta, cs_type = DELETE,
        cs_entity = entity, cs_payload = [], cs_persisted = False \<rparr>)"

definition computeChangeSets :: "nat \<Rightarrow> 'w env \<Rightarrow> 'w state \<Rightarrow> ('w, 'w state) result option" where
  "computeChangeSets n env st =
     (let st0 = st\<lparr> changeSets := [] \<rparr> in
      bindR (persistEach n env
               (filter (\<lambda>entity. entity \<notin> set (removeStack st0) \<and> entity \<notin> set (orphanRemoveStack st0))
                  (map snd (identityMap st0))) st0)
        (\<lambda>st1. bindR (drainPersistStack n env st1)
           (\<lambda>st2. bindR (removeEach n env (orphanRemoveStack st2) st2)
              (\<lambda>st3. Some (Inr (st3\<lparr> changeSets :=
                   changeSets st3 @ map (deleteChangeSet env st3) (removeStack st3) \<rparr>))))))"

subsection \<open>Ordering the change sets\<close>

text \<open>\<^verbatim>\<open>Array.prototype.indexOf\<close>: the first position of the element, \<open>-1\<close> when absent.\<close>

fun indexOf :: "'a list \<Rightarrow> 'a \<Rightarrow> int" where
  "indexOf [] x = - 1"
| "indexOf (y # ys) x =
     (if y = x then 0 else (let r = indexOf ys x in if r < 0 then - 1 else r + 1))"

text \<open>\<^verbatim>\<open>Utils.unique\<close>: the first occurrence of every element, in order.\<close>

definition unique :: "'a list \<Rightarrow> 'a list" where
  "unique xs = rev (remdups (rev xs))"

definition isOwningToOne :: "EntityProperty \<Rightarrow> bool" where
  "isOwningToOne prop =
     ((p_reference prop = ONE_TO_ONE \<and> p_owner prop) \<or> p_reference prop = MANY_TO_ONE)"

text \<open>
  \<^verbatim>\<open>getCommitOrder\<close> and \<^verbatim>\<open>addCommitDependency\<close>: a node per type name of the change sets;
  the names are then popped from the end (the loop stops at a falsy name), and every
  owning to-one property whose target is a node adds the dependency
  \<^verbatim>\<open>(prop.type, entityName, prop.nullable ? 0 : 1)\<close>.
\<close>

definition addCommitDependency :: "EntityProperty \<Rightarrow> string \<Rightarrow> (string \<times> string \<times> nat) list" where
  "addCommitDependency prop entityName =
     (if \<not> isOwningToOne prop then []
      else [(p_type prop, entityName, if p_nullable prop then 0 else 1)])"

definition getCommitOrder :: "'w env \<Rightarrow> 'w state \<Rightarrow> string list" where
  "getCommitOrder env st =
     (let types = unique (map cs_name (changeSets st)) in
      calc_sort env types
        (concat (map (\<lambda>entityName.
             concat (map (\<lambda>prop. if p_type prop \<notin> set types then []
                                  else addCommitDependency prop entityName)
                       (m_properties (metadata env entityName))))
           (takeWhile (\<lambda>entityName. entityName \<noteq> []) (rev types)))))"

definition typeOrder :: "ChangeSetType list" where
  "typeOrder = [CREATE, UPDATE, DELETE]"

text \<open>
  The change sets of the list are distinct objects, and \<^verbatim>\<open>base.indexOf(a)\<close> finds an
  object by reference: a change set of the list being sorted is paired with its position
  in \<^verbatim>\<open>copy\<close>, and \<^verbatim>\<open>base.indexOf(a)\<close> is that position.
  \<^verbatim>\<open>compare(base, arr, a, b, key)\<close>, with \<open>key\<close> as a projection:
\<close>

definition compare :: "'k list \<Rightarrow> (ChangeSet \<Rightarrow> 'k) \<Rightarrow> nat \<times> ChangeSet \<Rightarrow> nat \<times> ChangeSet \<Rightarrow> int" where
  "compare arr key a b =
     (if indexOf arr (key (snd a)) = indexOf arr (key (snd b))
      then int (fst a) - int (fst b)
      else indexOf arr (key (snd a)) - indexOf arr (key (snd b)))"

text \<open>The comparator handed to \<^verbatim>\<open>this.changeSets.sort\<close>.\<close>

definition changeSetCompare :: "string list \<Rightarrow> nat \<times> ChangeSet \<Rightarrow> nat \<times> ChangeSet \<Rightarrow> int" where
  "changeSetCompare commitOrder a b =
     (if cs_type (snd a) \<noteq> cs_type (snd b) then compare typeOrder cs_type a b
      else if cs_type (snd a) = DELETE then compare (rev commitOrder) cs_name a b
      else compare commitOrder cs_name a b)"

text \<open>
  \<^verbatim>\<open>Array.prototype.sort(comparefn)\<close>, as an insertion sort: \<open>x\<close> goes before the first
  element it does not compare greater than.
\<close>

fun insert_by :: "('a \<Rightarrow> 'a \<Rightarrow> int) \<Rightarrow> 'a \<Rightarrow> 'a list \<Rightarrow> 'a list" where
  "insert_by cmp x [] = [x]"
| "insert_by cmp x (y # ys) = (if cmp x y \<le> 0 then x # y # ys else y # insert_by cmp x ys)"

definition sort_by :: "('a \<Rightarrow> 'a \<Rightarrow> int) \<Rightarrow> 'a list \<Rightarrow> 'a list" where
  "sort_by cmp xs = foldr (insert_by cmp) xs []"

text \<open>The sorted list of \<^verbatim>\<open>reorderChangeSets\<close>, each change set with its position in
  \<^verbatim>\<open>copy\<close>; \<^verbatim>\<open>reorderChangeSets\<close> leaves the change sets in that order.\<close>

definition sortedChangeSets :: "string list \<Rightarrow> ChangeSet list \<Rightarrow> (nat \<times> ChangeSet) list" where
  "sortedChangeSets commitOrder css =
     sort_by (changeSetCompare commitOrder) (zip [0..<length css] css)"

definition reorderChangeSets :: "'w env \<Rightarrow> 'w state \<Rightarrow> 'w state" where
  "reorderChangeSets env st =
     st\<lparr> changeSets := map snd (sortedChangeSets (getCommitOrder env st) (changeSets st)) \<rparr>"

text \<open>The sort key the comparator induces: kind, then type position, then original position.\<close>

definition sortKey :: "string list \<Rightarrow> nat \<times> ChangeSet \<Rightarrow> int \<times> int \<times> nat" where
  "sortKey commitOrder a =
     (indexOf typeOrder (cs_type (snd a)),
      (if cs_type (snd a) = DELETE then indexOf (rev commitOrder) (cs_name (snd a))
       else indexOf commitOrder (cs_name (snd a))),
      fst a)"

subsection \<open>Writing the change sets\<close>

definition beforeHook :: "ChangeSetType \<Rightarrow> HookType" where
  "beforeHook t = (case t of CREATE \<Rightarrow> beforeCreate | UPDATE \<Rightarrow> beforeUpdate | DELETE \<Rightarrow> beforeDelete)"

definition afterHook :: "ChangeSetType \<Rightarrow> HookType" where
  "afterHook t = (case t of CREATE \<Rightarrow> afterCreate | UPDATE \<Rightarrow> afterUpdate | DELETE \<Rightarrow> afterDelete)"

text \<open>\<^verbatim>\<open>Utils.runSerial(hooks, hook => entity[hook]())\<close> and \<^verbatim>\<open>Object.assign\<close>.\<close>

fun runSerial :: "'w env \<Rightarrow> eid \<Rightarrow> string list \<Rightarrow> 'w state \<Rightarrow> ('w, 'w state) result" where
  "runSerial env entity [] st = Inr st"
| "runSerial env entity (hook # hooks) st =
     (case callHook env entity hook st of Inl e \<Rightarrow> Inl e | Inr st1 \<Rightarrow> runSerial env entity hooks st1)"

definition assign :: "(string \<times> val) list \<Rightarrow> (string \<times> val) list \<Rightarrow> (string \<times> val) list" where
  "assign target source = foldl (\<lambda>acc (k, v). AList.update k v acc) target source"

text \<open>\<^verbatim>\<open>runHooks(type, entity, payload?)\<close>; it returns the payload, updated when one is given.\<close>

definition runHooks :: "'w env \<Rightarrow> HookType \<Rightarrow> eid \<Rightarrow> (string \<times> val) list option \<Rightarrow> 'w state
    \<Rightarrow> ('w, (string \<times> val) list option \<times> 'w state) result" where
  "runHooks env type entity payload st =
     (case map_of (m_hooks (metadata env (e_constructor_name (entity_at st entity)))) type of
        None \<Rightarrow> Inr (payload, st)
      | Some hooks \<Rightarrow>
          (if hooks = [] then Inr (payload, st)
           else (let copy = prepareEntity env st entity in
             case runSerial env entity hooks st of
               Inl e \<Rightarrow> Inl e
             | Inr st1 \<Rightarrow>
                 Inr (case payload of
                        None \<Rightarrow> None
                      | Some p \<Rightarrow> Some (assign p (diffEntities env copy st1 entity)), st1))))"

text \<open>
  The first part of \<^verbatim>\<open>commitChangeSet\<close>, for a \<^verbatim>\<open>CREATE\<close>: every owning to-one property
  with a truthy value that is the entity of a \<^verbatim>\<open>CREATE\<close> change set of the list not yet
  persisted is put on the extra-update queue and deleted from the entity and the payload.
\<close>

fun deferReferences :: "EntityProperty list \<Rightarrow> ChangeSet \<times> 'w state \<Rightarrow> ChangeSet \<times> 'w state" where
  "deferReferences [] (changeSet, st) = (changeSet, st)"
| "deferReferences (prop # props) (changeSet, st) =
     (let v = get_field st (cs_entity changeSet) (p_name prop);
          isScheduledForInsert =
            (case find (\<lambda>cs. VEnt (cs_entity cs) = v) (changeSets st) of
               None \<Rightarrow> False
             | Some cs \<Rightarrow> cs_type cs = CREATE \<and> \<not> cs_persisted cs)
      in deferReferences props
           (if isScheduledForInsert
            then (changeSet\<lparr> cs_payload := AList.delete (p_name prop) (cs_payload changeSet) \<rparr>,
                  delete_field (cs_entity changeSet) (p_name prop)
                    (st\<lparr> extraUpdates := extraUpdates st @ [(cs_entity changeSet, p_name prop, v)] \<rparr>))
            else (changeSet, st)))"

text \<open>
  \<^verbatim>\<open>commitChangeSet(changeSet, ctx)\<close>. A change set is an object the list and the caller
  share: the function returns it as it is after the call, and the caller stores it back.
\<close>

definition commitChangeSet :: "nat \<Rightarrow> 'w env \<Rightarrow> ChangeSet \<Rightarrow> 'w state \<Rightarrow> ('w, ChangeSet \<times> 'w state) result option" where
  "commitChangeSet n env changeSet st =
     (case (if cs_type changeSet = CREATE
            then deferReferences
                   (filter (\<lambda>prop. truthy (get_field st (cs_entity changeSet) (p_name prop)))
                      (filter isOwningToOne
                         (m_properties (metadata env (e_constructor_name (entity_at st (cs_entity changeSet)))))))
                   (changeSet, st)
            else (changeSet, st)) of
        (cs1, st1) \<Rightarrow>
          (case runHooks env (beforeHook (cs_type cs1)) (cs_entity cs1) (Some (cs_payload cs1)) st1 of
             Inl e \<Rightarrow> Some (Inl e)
           | Inr (payload, st2) \<Rightarrow>
              (case persistChangeSet env (cs1\<lparr> cs_payload := (case payload of None \<Rightarrow> cs_payload cs1 | Some p \<Rightarrow> p) \<rparr>) st2 of
                 Inl e \<Rightarrow> Some (Inl e)
               | Inr (cs2, st3) \<Rightarrow>
                   bindR (case cs_type cs2 of
                            CREATE \<Rightarrow> (case em_merge env (cs_entity cs2) st3 of
                                          Inl e \<Rightarrow> Some (Inl e) | Inr s \<Rightarrow> Some (Inr s))
                          | UPDATE \<Rightarrow> bindR (merge n env (cs_entity cs2) [] True st3)
                                        (\<lambda>(visited, s). Some (Inr s))
                          | DELETE \<Rightarrow> Some (Inr (unsetIdentity (cs_entity cs2) st3)))
                     (\<lambda>st4. case runHooks env (afterHook (cs_type cs2)) (cs_entity cs2) None st4 of
                               Inl e \<Rightarrow> Some (Inl e)
                             | Inr (p, st5) \<Rightarrow> Some (Inr (cs2, st5))))))"

text \<open>
  \<^verbatim>\<open>persistToDatabase\<close>: the loop over the change sets (\<open>commitChangeSets\<close>, from index
  \<open>i\<close> of the live list), the loop that drains the extra-update queue
  (\<open>drainExtraUpdates\<close>) and the loop over the collection updates (\<open>syncCollections\<close>).
  Each iteration takes one unit of fuel.
\<close>

fun commitChangeSets :: "nat \<Rightarrow> 'w env \<Rightarrow> nat \<Rightarrow> 'w state \<Rightarrow> ('w, 'w state) result option" where
  "commitChangeSets 0 env i st = None"
| "commitChangeSets (Suc n) env i st =
     (if i < length (changeSets st)
      then bindR (commitChangeSet n env (changeSets st ! i) st)
             (\<lambda>(cs, st1). commitChangeSets n env (Suc i) (st1\<lparr> changeSets := (changeSets st1)[i := cs] \<rparr>))
      else Some (Inr st))"

fun drainExtraUpdates :: "nat \<Rightarrow> 'w env \<Rightarrow> 'w state \<Rightarrow> ('w, 'w state) result option" where
  "drainExtraUpdates 0 env st = None"
| "drainExtraUpdates (Suc n) env st =
     (case extraUpdates st of
        [] \<Rightarrow> Some (Inr st)
      | (entity, name, v) # rest \<Rightarrow>
          (case computeChangeSet env entity (set_field entity name v (st\<lparr> extraUpdates := rest \<rparr>)) of
             Inl e \<Rightarrow> Some (Inl e)
           | Inr (None, st1) \<Rightarrow> drainExtraUpdates n env st1
           | Inr (Some changeSet, st1) \<Rightarrow>
               bindR (commitChangeSet n env changeSet st1)
                 (\<lambda>(cs, st2). drainExtraUpdates n env st2)))"

fun syncCollections :: "nat \<Rightarrow> 'w env \<Rightarrow> nat \<Rightarrow> 'w state \<Rightarrow> ('w, 'w state) result option" where
  "syncCollections 0 env i st = None"
| "syncCollections (Suc n) env i st =
     (if i < length (collectionUpdates st)
      then (case syncCollection env (collectionUpdates st ! i) st of
              Inl e \<Rightarrow> Some (Inl e)
            | Inr st1 \<Rightarrow> syncCollections n env (Suc i) (takeSnapshot (collectionUpdates st ! i) st1))
      else Some (Inr st))"

definition persistToDatabase :: "nat \<Rightarrow> 'w env \<Rightarrow> 'w state \<Rightarrow> ('w, 'w state) result option" where
  "persistToDatabase n env st =
     bindR (commitChangeSets n env 0 st)
       (\<lambda>st1. bindR (drainExtraUpdates n env st1) (\<lambda>st2. syncCollections n env 0 st2))"

definition commit :: "nat \<Rightarrow> 'w env \<Rightarrow> 'w state \<Rightarrow> ('w, 'w state) result option" where
  "commit n env st =
     bindR (computeChangeSets n env st)
       (\<lambda>st1. if changeSets st1 = [] \<and> collectionUpdates st1 = [] \<and> extraUpdates st1 = []
               then Some (Inr (postCommitCleanup st1))
               else (let st2 = reorderChangeSets env st1;
                         runInTransaction = (\<not> isInTransaction env st2 \<and> supportsTransactions env
                                             \<and> implicitTransactions env st2)
                     in bindR (if runInTransaction
                               then transactional env (persistToDatabase n env) st2
                               else persistToDatabase n env st2)
                          (\<lambda>st3. Some (Inr (postCommitCleanup st3)))))"

subsection \<open>Locking\<close>

definition lockPessimistic :: "'w env \<Rightarrow> eid \<Rightarrow> LockMode \<Rightarrow> 'w state \<Rightarrow> ('w, 'w state) result" where
  "lockPessimistic env entity mode st =
     (if \<not> isInTransaction env st then Inl (TransactionRequired, st)
      else lock_query env entity mode st)"

text \<open>\<^verbatim>\<open>Utils.isDefined(version)\<close> is \<^verbatim>\<open>typeof version !== 'undefined'\<close>; \<^verbatim>\<open>!==\<close> on two
  values is inequality (objects are their references).\<close>

definition lockOptimistic :: "'w env \<Rightarrow> eid \<Rightarrow> EntityMetadata \<Rightarrow> val \<Rightarrow> 'w state \<Rightarrow> ('w, 'w state) result" where
  "lockOptimistic env entity meta version st =
     (if m_versionProperty meta = [] then Inl (NotVersioned, st)
      else if version = VUndef then Inr st
      else (case (if \<not> e_initialized (entity_at st entity) then init_entity env entity st else Inr st) of
              Inl e \<Rightarrow> Inl e
            | Inr st1 \<Rightarrow>
                (let previousVersion = get_field st1 entity (m_versionProperty meta) in
                 if previousVersion \<noteq> version then Inl (LockFailedVersionMismatch, st1)
                 else Inr st1)))"

definition lock :: "'w env \<Rightarrow> eid \<Rightarrow> LockMode \<Rightarrow> val \<Rightarrow> 'w state \<Rightarrow> ('w, 'w state) result" where
  "lock env entity mode version st =
     (if getById env st (e_constructor_name (entity_at st entity))
            (VArr (e_primaryKeys (entity_at st entity))) = None
      then Inl (EntityNotManaged, st)
      else (let meta = metadata env (e_constructor_name (entity_at st entity)) in
            if mode = OPTIMISTIC then lockOptimistic env entity meta version st
            else if mode \<in> {NONE, PESSIMISTIC_READ, PESSIMISTIC_WRITE}
            then lockPessimistic env entity mode st
            else Inr st))"

text \<open>An entity the identity map holds, and the version property of its type, as \<^verbatim>\<open>lock\<close>
  reads them.\<close>

definition isManaged :: "'w env \<Rightarrow> 'w state \<Rightarrow> eid \<Rightarrow> bool" where
  "isManaged env st entity =
     (getById env st (e_constructor_name (entity_at st entity))
        (VArr (e_primaryKeys (entity_at st entity))) \<noteq> None)"

definition versionPropertyOf :: "'w env \<Rightarrow> 'w state \<Rightarrow> eid \<Rightarrow> string" where
  "versionPropertyOf env st entity =
     m_versionProperty (metadata env (e_constructor_name (entity_at st entity)))"


subsection \<open>The calls of the operations in a walk\<close>

text \<open>
  The methods \<^verbatim>\<open>persist\<close>, \<^verbatim>\<open>remove\<close>, \<^verbatim>\<open>merge\<close>, \<^verbatim>\<open>cascade\<close> and \<^verbatim>\<open>cascadeReference\<close> once
  more, line by line as above, with a log of the calls added: every call of \<^verbatim>\<open>persist\<close>,
  \<^verbatim>\<open>remove\<close> or \<^verbatim>\<open>merge\<close> first appends the operation and the entity it is called on. The
  log is passed along and returned like \<open>visited\<close>, and nothing reads it: forgetting it
  gives the functions above (lemma \<open>forgetLog_cascade\<close>). A call that throws returns no
  log.
\<close>

type_synonym call = "Cascade \<times> eid"


text \<open>Forgetting the log of a result.\<close>

definition forgetLog :: "('w, eid list \<times> 'w state \<times> call list) result option \<Rightarrow> ('w, eid list \<times> 'w state) result option" where
  "forgetLog r = map_option (map_sum id (\<lambda>(visited, st, log). (visited, st))) r"

section \<open>A small domain for concrete runs\<close>

text \<open>
  Authors, books and tags: a book has a required author (many-to-one, owning) and owns a
  many-to-many relation to tags; an author has the inverse one-to-many collection of
  books, a tag the inverse many-to-many collection of books. \<open>Author\<close> is versioned.
\<close>

definition scalarProperty :: "string \<Rightarrow> EntityProperty" where
  "scalarProperty n = blankProperty\<lparr> p_name := n, p_type := ''string'' \<rparr>"

definition authorBooks :: EntityProperty where
  "authorBooks = \<lparr> p_name = ''books'', p_type = ''Book'', p_reference = ONE_TO_MANY,
     p_wrappedReference = False, p_nullable = False, p_cascade = [PERSIST, REMOVE],
     p_orphanRemoval = False, p_owner = False, p_mappedBy = ''author'' \<rparr>"

definition bookAuthor :: EntityProperty where
  "bookAuthor = \<lparr> p_name = ''author'', p_type = ''Author'', p_reference = MANY_TO_ONE,
     p_wrappedReference = False, p_nullable = False, p_cascade = [PERSIST, MERGE],
     p_orphanRemoval = False, p_owner = True, p_mappedBy = [] \<rparr>"

definition bookTags :: EntityProperty where
  "bookTags = \<lparr> p_name = ''tags'', p_type = ''Tag'', p_reference = MANY_TO_MANY,
     p_wrappedReference = False, p_nullable = False, p_cascade = [PERSIST],
     p_orphanRemoval = False, p_owner = True, p_mappedBy = [] \<rparr>"

definition tagBooks :: EntityProperty where
  "tagBooks = \<lparr> p_name = ''books'', p_type = ''Book'', p_reference = MANY_TO_MANY,
     p_wrappedReference = False, p_nullable = False, p_cascade = [],
     p_orphanRemoval = False, p_owner = False, p_mappedBy = ''tags'' \<rparr>"

definition demoMetadata :: "string \<Rightarrow> EntityMetadata" where
  "demoMetadata n =
     (if n = ''Author''
      then \<lparr> m_name = ''Author'', m_collection = ''author'', m_versionProperty = ''version'',
             m_properties = [scalarProperty ''name'', authorBooks], m_hooks = [] \<rparr>
      else if n = ''Book''
      then \<lparr> m_name = ''Book'', m_collection = ''book'', m_versionProperty = [],
             m_properties = [scalarProperty ''title'', bookAuthor, bookTags], m_hooks = [] \<rparr>
      else \<lparr> m_name = n, m_collection = n, m_versionProperty = [],
             m_properties = [scalarProperty ''name'', tagBooks], m_hooks = [] \<rparr>)"

text \<open>
  Collaborators for the concrete runs: a change set for every entity without a snapshot,
  a driver that marks the change set persisted, no transaction, the nodes in the order
  they were added as commit order.
\<close>

definition demoChangeSet :: "unit state \<Rightarrow> eid \<Rightarrow> ChangeSet" where
  "demoChangeSet st e =
     \<lparr> cs_name = m_name (demoMetadata (e_constructor_name (entity_at st e))),
       cs_collection = m_collection (demoMetadata (e_constructor_name (entity_at st e))),
       cs_type = (if truthy (e_primaryKey (entity_at st e)) then UPDATE else CREATE),
       cs_entity = e, cs_payload = [], cs_persisted = False \<rparr>"

definition demoHash :: "val list \<Rightarrow> string" where
  "demoHash pks = concat (map (\<lambda>v. case v of VStr s \<Rightarrow> s | _ \<Rightarrow> ''?'') pks)"

definition demoEnv :: "unit env" where
  "demoEnv = \<lparr>
     metadata = demoMetadata,
     prepareEntity = (\<lambda>st e. e_fields (entity_at st e)),
     diffEntities = (\<lambda>copy st e. []),
     getPrimaryKeyHash = demoHash,
     newReference = (\<lambda>n pk. blankEntity\<lparr> e_uuid := ''lazy'', e_primaryKeys := [pk],
                                e_serializedPrimaryKey := demoHash [pk] \<rparr>),
     super_add = (\<lambda>current items. current @ filter (\<lambda>x. x \<notin> set current) items),
     super_remove = (\<lambda>current items. filter (\<lambda>x. x \<notin> set items) current),
     computeChangeSet = (\<lambda>e st. Inr (if hasSnapshot st e then None else Some (demoChangeSet st e), st)),
     persistChangeSet = (\<lambda>cs st. Inr (cs\<lparr> cs_persisted := True \<rparr>, st)),
     callHook = (\<lambda>e hook st. Inr st),
     em_merge = (\<lambda>e st. Inr st),
     syncCollection = (\<lambda>c st. Inr st),
     isInTransaction = (\<lambda>st. False),
     supportsTransactions = False,
     implicitTransactions = (\<lambda>st. True),
     transactional = (\<lambda>cb st. cb st),
     calc_sort = (\<lambda>nodes dependencies. nodes),
     init_entity = (\<lambda>e st. Inr st),
     lock_query = (\<lambda>e mode st. Inr st) \<rparr>"

definition emptyState :: "unit state" where
  "emptyState = \<lparr> entities = [], collections = [], identityMap = [], originalEntityData = [],
     identifierMap = [], persistStack = [], removeStack = [], orphanRemoveStack = [],
     changeSets = [], collectionUpdates = [], extraUpdates = [], world = () \<rparr>"

definition demoEntity :: "string \<Rightarrow> string \<Rightarrow> string \<Rightarrow> (string \<times> val) list \<Rightarrow> Entity" where
  "demoEntity n uuid pk fs =
     \<lparr> e_constructor_name = n, e_uuid = uuid,
       e_primaryKey = (if pk = [] then VUndef else VStr pk),
       e_primaryKeys = (if pk = [] then [] else [VStr pk]),
       e_serializedPrimaryKey = pk, e_initialized = True, e_em = False, e_fields = fs \<rparr>"

definition demoChange :: "string \<Rightarrow> ChangeSetType \<Rightarrow> eid \<Rightarrow> ChangeSet" where
  "demoChange n t e = \<lparr> cs_name = n, cs_collection = n, cs_type = t, cs_entity = e,
     cs_payload = [], cs_persisted = False \<rparr>"

text \<open>Four change sets in the order they were computed.\<close>

definition orderState :: "unit state" where
  "orderState = emptyState\<lparr> changeSets :=
     [demoChange ''Author'' DELETE 0, demoChange ''Book'' CREATE 1,
      demoChange ''Author'' CREATE 2, demoChange ''Book'' DELETE 3] \<rparr>"

text \<open>
  A tag (entity 0) with its inverse collection of books (collection 0), a book (entity 1)
  whose owning collection of tags (collection 1) is loaded, and a book (entity 2) that is
  a reference: its collection of tags (collection 2) is not initialized.
\<close>

definition tagState :: "unit state" where
  "tagState = emptyState\<lparr>
     entities := [demoEntity ''Tag'' ''u0'' ''1'' [(''books'', VColl 0)],
                  demoEntity ''Book'' ''u1'' ''1'' [(''tags'', VColl 1)],
                  demoEntity ''Book'' ''u2'' ''2'' [(''tags'', VColl 2)]],
     collections := [newCollection 0 tagBooks, newCollection 1 bookTags,
                     (newCollection 2 bookTags)\<lparr> c_initialized := False \<rparr>] \<rparr>"

text \<open>
  A managed, loaded author (entity 0) at version 1, a managed book (entity 1), and a new
  author (entity 2) that has no primary key yet.
\<close>

definition lockState :: "unit state" where
  "lockState = emptyState\<lparr>
     entities := [demoEntity ''Author'' ''u0'' ''1'' [(''name'', VStr ''Ann''), (''version'', VNum 1)],
                  demoEntity ''Book'' ''u1'' ''7'' [(''title'', VStr ''T'')],
                  demoEntity ''Author'' ''u2'' [] [(''name'', VStr ''Bob'')]],
     identityMap := [(''Author-1'', 0), (''Book-7'', 1)],
     originalEntityData := [(''u0'', [(''name'', VStr ''Ann''), (''version'', VNum 1)]),
                            (''u1'', [(''title'', VStr ''T'')])] \<rparr>"

text \<open>The state after \<^verbatim>\<open>remove(author)\<close> on \<open>lockState\<close>, and after \<^verbatim>\<open>merge(author)\<close> on that.\<close>

definition removedState :: "unit state" where
  "removedState = lockState\<lparr> identityMap := [(''Book-7'', 1)],
     originalEntityData := [(''u1'', [(''title'', VStr ''T'')])], removeStack := [0] \<rparr>"

definition remergedState :: "unit state" where
  "remergedState = (update_entity 0 (\<lambda>x. x\<lparr> e_em := True \<rparr>) removedState)\<lparr>
     identityMap := [(''Book-7'', 1), (''Author-1'', 0)],
     originalEntityData := [(''u1'', [(''title'', VStr ''T'')]),
                            (''u0'', [(''name'', VStr ''Ann''), (''version'', VNum 1)])] \<rparr>"

text \<open>The state after \<^verbatim>\<open>persist(author)\<close> on \<open>removedState\<close>.\<close>

definition repersistedState :: "unit state" where
  "repersistedState = removedState\<lparr> persistStack := [0], removeStack := [] \<rparr>"



text \<open>A driver whose every write throws, the state after \<^verbatim>\<open>persist(author)\<close> of the new
  author of \<open>lockState\<close>, and the state in which a commit of it on that driver throws.\<close>

definition failingEnv :: "unit env" where
  "failingEnv = demoEnv\<lparr> persistChangeSet := (\<lambda>cs st. Inl (Thrown ''driver'', st)) \<rparr>"

definition pendingState :: "unit state" where
  "pendingState = lockState\<lparr> identifierMap := [(''u2'', EntityIdentifier VUndef)],
     persistStack := [2] \<rparr>"

definition failedState :: "unit state" where
  "failedState = lockState\<lparr>
     originalEntityData := originalEntityData lockState @ [(''u2'', [(''name'', VStr ''Bob'')])],
     identifierMap := [(''u2'', EntityIdentifier VUndef)],
     changeSets := [\<lparr> cs_name = ''Author'', cs_collection = ''author'', cs_type = CREATE,
                     cs_entity = 2, cs_payload = [], cs_persisted = False \<rparr>] \<rparr>"





text \<open>
  A managed author that is a reference (entity 3, not loaded), and \<^verbatim>\<open>wrap(entity).init()\<close>
  on a driver that finds the row: the data is assigned, the entity is marked as loaded and
  merged into the unit of work, as the entity manager does with every entity it loads.
\<close>

definition referenceState :: "unit state" where
  "referenceState = lockState\<lparr>
     entities := entities lockState @ [(demoEntity ''Author'' ''u3'' ''9'' [])\<lparr> e_initialized := False \<rparr>],
     identityMap := identityMap lockState @ [(''Author-9'', 3)] \<rparr>"

definition loadAuthor :: "eid \<Rightarrow> unit state \<Rightarrow> (unit, unit state) result" where
  "loadAuthor e st =
     (case merge 6 demoEnv e [] True
             (update_entity e (\<lambda>x. x\<lparr> e_initialized := True,
                 e_fields := [(''name'', VStr ''Cy''), (''version'', VNum 1)] \<rparr>) st) of
        Some (Inr (visited, st1)) \<Rightarrow> Inr st1
      | Some (Inl err) \<Rightarrow> Inl err
      | None \<Rightarrow> Inl (Thrown ''init'', st))"

definition loadingEnv :: "unit env" where
  "loadingEnv = demoEnv\<lparr> init_entity := loadAuthor \<rparr>"

definition loadedState :: "unit state" where
  "loadedState = referenceState\<lparr>
     entities := entities lockState @ [(demoEntity ''Author'' ''u3'' ''9''
        [(''name'', VStr ''Cy''), (''version'', VNum 1)])\<lparr> e_em := True \<rparr>],
     originalEntityData := originalEntityData lockState
        @ [(''u3'', [(''name'', VStr ''Cy''), (''version'', VNum 1)])] \<rparr>"



section \<open>Properties\<close>

subsection \<open>Ordering of the change sets\<close>
lemma indexOf_ge: "- 1 \<le> indexOf xs x"
  by (induction xs) (auto simp: Let_def)

lemma indexOf_notin: "x \<notin> set xs \<Longrightarrow> indexOf xs x = - 1"
  by (induction xs) (auto simp: Let_def)

lemma indexOf_in: "x \<in> set xs \<Longrightarrow> 0 \<le> indexOf xs x \<and> indexOf xs x < int (length xs) \<and> xs ! nat (indexOf xs x) = x"
  by (induction xs) (auto simp: Let_def nat_add_distrib)

lemma indexOf_inj: "x \<in> set xs \<Longrightarrow> indexOf xs x = indexOf xs y \<Longrightarrow> x = y"
proof (induction xs)
  case Nil then show ?case by simp
next
  case (Cons z zs)
  then show ?case using indexOf_ge [of zs x] indexOf_ge [of zs y]
    by (auto simp: Let_def split: if_splits)
qed

lemma indexOf_nth: "distinct xs \<Longrightarrow> k < length xs \<Longrightarrow> indexOf xs (xs ! k) = int k"
proof (induction xs arbitrary: k)
  case Nil then show ?case by simp
next
  case (Cons z zs)
  then show ?case by (cases k) (auto simp: Let_def)
qed

lemma indexOf_rev:
  assumes "distinct xs" "x \<in> set xs"
  shows "indexOf (rev xs) x = int (length xs) - 1 - indexOf xs x"
proof -
  from assms(2) obtain k where k: "k < length xs" "xs ! k = x" "indexOf xs x = int k"
    using indexOf_in [of x xs] by (metis nat_less_iff int_nat_eq)
  have "rev xs ! (length xs - 1 - k) = x" using k by (simp add: rev_nth)
  moreover have "length xs - 1 - k < length (rev xs)" using k by simp
  ultimately have "indexOf (rev xs) x = int (length xs - 1 - k)"
    using indexOf_nth [of "rev xs" "length xs - 1 - k"] assms(1) by simp
  then show ?thesis using k by simp
qed

lemma typeOrder_index:
  "indexOf typeOrder CREATE = 0" "indexOf typeOrder UPDATE = 1" "indexOf typeOrder DELETE = 2"
  by (simp_all add: typeOrder_def)

lemma changeSetCompare_key:
  "changeSetCompare co a b \<le> 0 \<longleftrightarrow> sortKey co a \<le> sortKey co b"
  by (cases "cs_type (snd a)"; cases "cs_type (snd b)")
     (auto simp: changeSetCompare_def compare_def sortKey_def typeOrder_index)

lemma insert_by_insort:
  "(\<And>x y. cmp x y \<le> 0 \<longleftrightarrow> key x \<le> key y) \<Longrightarrow> insert_by cmp x ys = insort_key key x ys"
  by (induction ys) auto

lemma sort_by_sort_key:
  assumes "\<And>x y. cmp x y \<le> 0 \<longleftrightarrow> key x \<le> key y"
  shows "sort_by cmp xs = sort_key key xs"
proof -
  have "insert_by cmp = insort_key key" using insert_by_insort [OF assms] by (intro ext)
  then show ?thesis by (simp add: sort_by_def sort_key_def)
qed

lemma sortedChangeSets_sort_key:
  "sortedChangeSets co css = sort_key (sortKey co) (zip [0..<length css] css)"
  unfolding sortedChangeSets_def by (rule sort_by_sort_key) (rule changeSetCompare_key)


lemma sortedChangeSets_mset:
  "mset (sortedChangeSets co css) = mset (zip [0..<length css] css)"
  by (simp add: sortedChangeSets_sort_key)

lemma sortedChangeSets_sorted:
  "sorted (map (sortKey co) (sortedChangeSets co css))"
  by (simp add: sortedChangeSets_sort_key)

lemma sortedChangeSets_length: "length (sortedChangeSets co css) = length css"
  by (simp add: sortedChangeSets_sort_key)

lemma sortedChangeSets_distinct: "distinct (map fst (sortedChangeSets co css))"
proof -
  have "mset (map fst (sortedChangeSets co css)) = mset (map fst (zip [0..<length css] css))"
    using sortedChangeSets_mset by (metis mset_map)
  also have "\<dots> = mset [0..<length css]" by simp
  finally show ?thesis by (metis distinct_upt mset_eq_imp_distinct_iff)
qed

lemma sortedChangeSets_member:
  assumes "k < length css" "sortedChangeSets co css ! k = (p, c)"
  shows "p < length css \<and> css ! p = c"
proof -
  have "(p, c) \<in> set (sortedChangeSets co css)"
    using assms sortedChangeSets_length [of co css] by (metis nth_mem)
  then have "(p, c) \<in> set (zip [0..<length css] css)"
    using sortedChangeSets_mset [of co css] by (metis set_mset_mset)
  then show ?thesis by (auto simp: set_zip)
qed

lemma sortedChangeSets_key_le:
  assumes "i < j" "j < length css"
  shows "sortKey co (sortedChangeSets co css ! i) \<le> sortKey co (sortedChangeSets co css ! j)"
proof -
  have "map (sortKey co) (sortedChangeSets co css) ! i \<le> map (sortKey co) (sortedChangeSets co css) ! j"
    using sortedChangeSets_sorted [of co css] assms sortedChangeSets_length [of co css]
    by (intro sorted_nth_mono) auto
  then show ?thesis using assms sortedChangeSets_length [of co css] by simp
qed

text \<open>
  Claim C1. \<^verbatim>\<open>reorderChangeSets\<close> permutes the change-set list, and for any two positions
  \<open>i < j\<close> of the result, holding \<open>a\<close> and \<open>b\<close> (which stood at \<open>pa\<close> and \<open>pb\<close>
  before): if their kinds differ, \<open>a\<close>'s kind comes first in CREATE, UPDATE, DELETE; two
  CREATE or two UPDATE change sets of different entity types stand in the commit order of
  their types; two DELETE change sets of different types stand in the reverse of it; and
  two of the same kind and type keep their original order. The commit order is the list
  \<^verbatim>\<open>getCommitOrder()\<close> returns: a linear order (no type twice) of the types of the
  change sets.
\<close>

theorem reorderChangeSets_order:
  assumes co: "distinct (getCommitOrder env st)"
      "cs_name ` set (changeSets st) \<subseteq> set (getCommitOrder env st)"
    and ij: "i < j" "j < length (changeSets st)"
    and a: "sortedChangeSets (getCommitOrder env st) (changeSets st) ! i = (pa, a)"
    and b: "sortedChangeSets (getCommitOrder env st) (changeSets st) ! j = (pb, b)"
  shows "mset (changeSets (reorderChangeSets env st)) = mset (changeSets st)
    \<and> changeSets (reorderChangeSets env st) ! i = a
    \<and> changeSets (reorderChangeSets env st) ! j = b
    \<and> pa < length (changeSets st) \<and> changeSets st ! pa = a
    \<and> pb < length (changeSets st) \<and> changeSets st ! pb = b
    \<and> (cs_type a \<noteq> cs_type b \<longrightarrow>
          (cs_type a, cs_type b) \<in> {(CREATE, UPDATE), (CREATE, DELETE), (UPDATE, DELETE)})
    \<and> (cs_type a = cs_type b \<and> cs_type a \<noteq> DELETE \<and> cs_name a \<noteq> cs_name b \<longrightarrow>
          indexOf (getCommitOrder env st) (cs_name a) < indexOf (getCommitOrder env st) (cs_name b))
    \<and> (cs_type a = DELETE \<and> cs_type b = DELETE \<and> cs_name a \<noteq> cs_name b \<longrightarrow>
          indexOf (getCommitOrder env st) (cs_name b) < indexOf (getCommitOrder env st) (cs_name a))
    \<and> (cs_type a = cs_type b \<and> cs_name a = cs_name b \<longrightarrow> pa < pb)"
proof -
  define commitOrder where "commitOrder = getCommitOrder env st"
  define css where "css = changeSets st"
  note co' = co [folded commitOrder_def css_def]
  note ij' = ij [folded css_def]
  note a' = a [folded commitOrder_def css_def]
  note b' = b [folded commitOrder_def css_def]
  have len: "length (sortedChangeSets commitOrder css) = length css"
    by (rule sortedChangeSets_length)
  have ma: "pa < length css \<and> css ! pa = a"
    using sortedChangeSets_member [of i css commitOrder pa a] ij' a' by simp
  have mb: "pb < length css \<and> css ! pb = b"
    using sortedChangeSets_member [of j css commitOrder pb b] ij' b' by simp
  have na: "cs_name a \<in> set commitOrder" using ma co'(2) by (metis image_subset_iff nth_mem)
  have nb: "cs_name b \<in> set commitOrder" using mb co'(2) by (metis image_subset_iff nth_mem)
  have neq: "pa \<noteq> pb"
  proof
    assume "pa = pb"
    then have "map fst (sortedChangeSets commitOrder css) ! i
             = map fst (sortedChangeSets commitOrder css) ! j"
      using a' b' ij' len by simp
    moreover have "i < length (map fst (sortedChangeSets commitOrder css))"
      "j < length (map fst (sortedChangeSets commitOrder css))"
      using ij' len by simp_all
    ultimately have "i = j"
      using sortedChangeSets_distinct [of commitOrder css]
      by (metis nth_eq_iff_index_eq)
    then show False using ij' by simp
  qed
  have le: "sortKey commitOrder (pa, a) \<le> sortKey commitOrder (pb, b)"
    using sortedChangeSets_key_le [OF ij', of commitOrder] a' b' by simp
  have ra: "indexOf (rev commitOrder) (cs_name a) = int (length commitOrder) - 1 - indexOf commitOrder (cs_name a)"
    by (rule indexOf_rev [OF co'(1) na])
  have rb: "indexOf (rev commitOrder) (cs_name b) = int (length commitOrder) - 1 - indexOf commitOrder (cs_name b)"
    by (rule indexOf_rev [OF co'(1) nb])
  have inj: "cs_name a \<noteq> cs_name b \<Longrightarrow> indexOf commitOrder (cs_name a) \<noteq> indexOf commitOrder (cs_name b)"
    using indexOf_inj [OF na] by blast
  have kind: "cs_type a \<noteq> cs_type b \<longrightarrow>
          (cs_type a, cs_type b) \<in> {(CREATE, UPDATE), (CREATE, DELETE), (UPDATE, DELETE)}"
    using le by (cases "cs_type a"; cases "cs_type b") (auto simp: sortKey_def typeOrder_index)
  have fwd: "cs_type a = cs_type b \<and> cs_type a \<noteq> DELETE \<and> cs_name a \<noteq> cs_name b \<longrightarrow>
          indexOf commitOrder (cs_name a) < indexOf commitOrder (cs_name b)"
    using le inj by (auto simp: sortKey_def)
  have bwd: "cs_type a = DELETE \<and> cs_type b = DELETE \<and> cs_name a \<noteq> cs_name b \<longrightarrow>
          indexOf commitOrder (cs_name b) < indexOf commitOrder (cs_name a)"
    using le inj ra rb by (auto simp: sortKey_def)
  have stable: "cs_type a = cs_type b \<and> cs_name a = cs_name b \<longrightarrow> pa < pb"
    using le neq by (auto simp: sortKey_def split: if_splits)
  have re: "changeSets (reorderChangeSets env st) = map snd (sortedChangeSets commitOrder css)"
    by (simp add: reorderChangeSets_def commitOrder_def css_def)
  have ri: "changeSets (reorderChangeSets env st) ! i = a"
    using a' ij' len by (simp add: re)
  have rj: "changeSets (reorderChangeSets env st) ! j = b"
    using b' ij' len by (simp add: re)
  have "mset (map snd (sortedChangeSets commitOrder css)) = mset (map snd (zip [0..<length css] css))"
    using sortedChangeSets_mset by (metis mset_map)
  then have ms: "mset (changeSets (reorderChangeSets env st)) = mset css"
    by (simp add: re)
  show ?thesis
    using ms ma mb kind fwd bwd stable ri rj unfolding commitOrder_def css_def by blast
qed

lemma orderState_sorted:
  "sortedChangeSets (getCommitOrder demoEnv orderState) (changeSets orderState) =
     [(2, demoChange ''Author'' CREATE 2), (1, demoChange ''Book'' CREATE 1),
      (3, demoChange ''Book'' DELETE 3), (0, demoChange ''Author'' DELETE 0)]"
  by (simp add: sortedChangeSets_def sort_by_def changeSetCompare_def compare_def typeOrder_def
        getCommitOrder_def orderState_def emptyState_def demoEnv_def demoChange_def unique_def
        demoMetadata_def upt_rec)

lemma orderState_commitOrder: "getCommitOrder demoEnv orderState = [''Author'', ''Book'']"
  by (simp add: getCommitOrder_def orderState_def emptyState_def demoEnv_def demoChange_def unique_def)

theorem reorderChangeSets_order_witness:
  "distinct (getCommitOrder demoEnv orderState)
   \<and> cs_name ` set (changeSets orderState) \<subseteq> set (getCommitOrder demoEnv orderState)
   \<and> sortedChangeSets (getCommitOrder demoEnv orderState) (changeSets orderState) ! 2
       = (3, demoChange ''Book'' DELETE 3)
   \<and> sortedChangeSets (getCommitOrder demoEnv orderState) (changeSets orderState) ! 3
       = (0, demoChange ''Author'' DELETE 0)
   \<and> changeSets (reorderChangeSets demoEnv orderState) ! 2 = demoChange ''Book'' DELETE 3
   \<and> changeSets (reorderChangeSets demoEnv orderState) ! 3 = demoChange ''Author'' DELETE 0
   \<and> indexOf (getCommitOrder demoEnv orderState) ''Author''
       < indexOf (getCommitOrder demoEnv orderState) ''Book''"
proof -
  have h1: "distinct (getCommitOrder demoEnv orderState)"
    by (simp add: orderState_commitOrder)
  have h2: "cs_name ` set (changeSets orderState) \<subseteq> set (getCommitOrder demoEnv orderState)"
    by (simp add: orderState_commitOrder) (simp add: orderState_def demoChange_def)
  have h3: "(2::nat) < 3" by simp
  have h4: "3 < length (changeSets orderState)" by (simp add: orderState_def)
  have h5: "sortedChangeSets (getCommitOrder demoEnv orderState) (changeSets orderState) ! 2
       = (3, demoChange ''Book'' DELETE 3)"
    by (simp add: orderState_sorted)
  have h6: "sortedChangeSets (getCommitOrder demoEnv orderState) (changeSets orderState) ! 3
       = (0, demoChange ''Author'' DELETE 0)"
    by (simp add: orderState_sorted)
  from reorderChangeSets_order [OF h1 h2 h3 h4 h5 h6]
  show ?thesis using h1 h2 h5 h6 by (simp add: demoChange_def)
qed

subsection \<open>The dirty flag of a collection\<close>

lemma collection_at_update_collection:
  "collection_at (update_collection c f st) c' =
     (if c' = c \<and> c < length (collections st) then f (collection_at st c) else collection_at st c')"
  by (auto simp: collection_at_def update_collection_def)

lemma collection_at_cong_collections:
  "collections st' = collections st \<Longrightarrow> collection_at st' c = collection_at st c"
  by (simp add: collection_at_def)

lemma collections_cancelOrphanRemoval_fold:
  "collections (foldl (\<lambda>s item. cancelOrphanRemoval item s) st items) = collections st"
  by (induction items arbitrary: st) (simp_all add: cancelOrphanRemoval_def)

lemma collections_scheduleOrphanRemoval_fold:
  "collections (foldl (\<lambda>s item. scheduleOrphanRemoval item s) st items) = collections st"
  by (induction items arbitrary: st) (simp_all add: scheduleOrphanRemoval_def)

lemma collections_Collection_cancelOrphanRemoval:
  "collections (Collection_cancelOrphanRemoval c items st) = collections st"
  by (simp add: Collection_cancelOrphanRemoval_def collections_cancelOrphanRemoval_fold)

lemma inverseClean_cong:
  "collections st' = collections st \<Longrightarrow> inverseClean st' c = inverseClean st c"
  by (simp add: inverseClean_def collection_at_def)

lemma inverseClean_setDirty: "inverseClean st c \<Longrightarrow> inverseClean (setDirty c' d st) c"
  by (auto simp: inverseClean_def setDirty_def collection_at_update_collection)

lemma inverseClean_items:
  "inverseClean st c \<Longrightarrow> inverseClean (update_collection c' (\<lambda>x. x\<lparr> c_items := g x \<rparr>) st) c"
  by (auto simp: inverseClean_def collection_at_update_collection)

lemma inverseClean_snapshot:
  "inverseClean st c \<Longrightarrow> inverseClean (update_collection c' (\<lambda>x. x\<lparr> c_snapshot := g x \<rparr>) st) c"
  by (auto simp: inverseClean_def collection_at_update_collection)

lemma validateModification_state:
  "validateModification c items st = Inr st' \<Longrightarrow> st' = st"
  "validateModification c items st = Inl (e, st') \<Longrightarrow> st' = st"
  by (auto simp: validateModification_def Let_def split: if_splits sum.splits bool.splits)

lemma checkInitialized_state:
  "checkInitialized c st = Inr st' \<Longrightarrow> st' = st"
  "checkInitialized c st = Inl (e, st') \<Longrightarrow> st' = st"
  by (auto simp: checkInitialized_def split: if_splits)

lemma inverseClean_modify:
  "inverseClean st c \<Longrightarrow> inverseClean (state_after (modify env c' m items st)) c"
  by (auto simp: modify_def state_after_def inverseClean_setDirty inverseClean_items
      split: sum.splits dest!: validateModification_state checkInitialized_state)

lemma inverseClean_add:
  assumes "inverseClean st c"
  shows "inverseClean (state_after (Collection_add env c' items st)) c"
proof (cases "list_all isEntity items")
  case False
  then show ?thesis using assms by (simp add: Collection_add_def validateItemTypes_def state_after_def)
next
  case True
  show ?thesis
  proof (cases "modify env c' method_add (map the_entity items) st")
    case (Inl e)
    then show ?thesis using True inverseClean_modify [OF assms, of env c' method_add "map the_entity items"]
      by (simp add: Collection_add_def validateItemTypes_def state_after_def)
  next
    case (Inr s)
    then have "inverseClean s c"
      using inverseClean_modify [OF assms, of env c' method_add "map the_entity items"]
      by (simp add: state_after_def)
    then show ?thesis using True Inr
      by (simp add: Collection_add_def validateItemTypes_def state_after_def
          inverseClean_cong [OF collections_Collection_cancelOrphanRemoval])
  qed
qed

lemma inverseClean_remove:
  assumes "inverseClean st c"
  shows "inverseClean (state_after (Collection_remove env c' items st)) c"
proof (cases "modify env c' method_remove items st")
  case (Inl e)
  then show ?thesis using inverseClean_modify [OF assms, of env c' method_remove items]
    by (simp add: Collection_remove_def state_after_def)
next
  case (Inr s)
  then have "inverseClean s c"
    using inverseClean_modify [OF assms, of env c' method_remove items] by (simp add: state_after_def)
  then show ?thesis using Inr
    by (simp add: Collection_remove_def state_after_def
        inverseClean_cong [OF collections_scheduleOrphanRemoval_fold])
qed

lemma inverseClean_super_set:
  assumes "inverseClean st c"
  shows "inverseClean (state_after (ArrayCollection_set env c' items st)) c"
proof (cases "Collection_remove env c' (c_items (collection_at st c')) st")
  case (Inl e)
  then show ?thesis using inverseClean_remove [OF assms, of env c' "c_items (collection_at st c')"]
    by (simp add: ArrayCollection_set_def)
next
  case (Inr s)
  then have "inverseClean s c"
    using inverseClean_remove [OF assms, of env c' "c_items (collection_at st c')"]
    by (simp add: state_after_def)
  then show ?thesis using Inr inverseClean_add [of s c env c' items]
    by (simp add: ArrayCollection_set_def)
qed

lemma inverseClean_set:
  assumes "inverseClean st c"
  shows "inverseClean (state_after (Collection_set env c' items st)) c"
proof (cases "list_all isEntity items")
  case False
  then show ?thesis using assms by (simp add: Collection_set_def validateItemTypes_def state_after_def)
next
  case True
  show ?thesis
  proof (cases "validateModification c' (map the_entity items) st")
    case (Inl e)
    then have "snd e = st" using validateModification_state(2) [of c' "map the_entity items" st "fst e" "snd e"]
      by simp
    then show ?thesis using True Inl assms
      by (cases e) (simp add: Collection_set_def validateItemTypes_def state_after_def)
  next
    case (Inr s)
    then have s: "s = st" by (rule validateModification_state(1))
    show ?thesis
    proof (cases "ArrayCollection_set env c' items st")
      case (Inl e)
      then show ?thesis using True Inr s inverseClean_super_set [OF assms, of env c' items]
        by (simp add: Collection_set_def validateItemTypes_def state_after_def)
    next
      case r: (Inr s3)
      then have "inverseClean s3 c" using inverseClean_super_set [OF assms, of env c' items]
        by (simp add: state_after_def)
      then have "inverseClean (setDirty c' True s3) c" by (rule inverseClean_setDirty)
      then show ?thesis using True Inr s r
        by (simp add: Collection_set_def validateItemTypes_def state_after_def
            inverseClean_cong [OF collections_Collection_cancelOrphanRemoval])
    qed
  qed
qed

lemma inverseClean_call:
  assumes "inverseClean st c"
  shows "inverseClean (state_after (collectionCall_run env c' call st)) c"
proof (cases call)
  case (CallAdd items)
  then show ?thesis using inverseClean_add [OF assms] by (simp add: collectionCall_run_def)
next
  case (CallSet items)
  then show ?thesis using inverseClean_set [OF assms] by (simp add: collectionCall_run_def)
next
  case (CallRemove items)
  then show ?thesis using inverseClean_remove [OF assms] by (simp add: collectionCall_run_def)
next
  case (CallSetDirty d)
  then show ?thesis using assms
    by (simp add: collectionCall_run_def state_after_def inverseClean_setDirty)
next
  case CallTakeSnapshot
  then show ?thesis using assms
    by (simp add: collectionCall_run_def state_after_def takeSnapshot_def
        inverseClean_setDirty inverseClean_snapshot)
qed

lemma inverseClean_calls:
  "inverseClean st c \<Longrightarrow> inverseClean (collectionCalls_run env calls st) c"
proof (induction calls arbitrary: st)
  case Nil then show ?case by simp
next
  case (Cons a calls)
  obtain c' call where a: "a = (c', call)" by (cases a)
  show ?case using Cons.IH [OF inverseClean_call [OF Cons.prems, of env c' call]] a by simp
qed

text \<open>
  Claim C10. A collection whose property is not the owning side of its relation and that
  is not dirty (as every collection is when constructed) is not dirty after any run of
  \<^verbatim>\<open>add\<close>, \<^verbatim>\<open>set\<close>, \<^verbatim>\<open>remove\<close>, \<^verbatim>\<open>setDirty\<close> and \<^verbatim>\<open>takeSnapshot\<close> calls, on this or any
  other collection, whether the calls return or throw.
\<close>

theorem inverse_collection_never_dirty:
  assumes "\<not> p_owner (c_property (collection_at st c))" and "\<not> isDirty st c"
  shows "\<not> isDirty (collectionCalls_run env calls st) c
       \<and> \<not> p_owner (c_property (collection_at (collectionCalls_run env calls st) c))"
  using inverseClean_calls [of st c env calls] assms by (simp add: inverseClean_def isDirty_def)

lemma tagState_run:
  "collectionCalls_run demoEnv [(0, CallSetDirty True), (0, CallAdd [VEnt 1])] tagState =
     tagState\<lparr> collections := [(newCollection 0 tagBooks)\<lparr> c_items := [1] \<rparr>, newCollection 1 bookTags,
                     (newCollection 2 bookTags)\<lparr> c_initialized := False \<rparr>] \<rparr>"
  by (simp add: tagState_def emptyState_def demoEnv_def collectionCall_run_def state_after_def
      setDirty_def update_collection_def collection_at_def newCollection_def tagBooks_def bookTags_def
      Collection_add_def validateItemTypes_def modify_def checkInitialized_def Collection_isInitialized_def
      validateModification_def owningSideNotInitialized_def get_field_def entity_at_def demoEntity_def
      Collection_cancelOrphanRemoval_def)

theorem inverse_collection_never_dirty_witness:
  "\<not> p_owner (c_property (collection_at tagState 0)) \<and> \<not> isDirty tagState 0
   \<and> \<not> isDirty (collectionCalls_run demoEnv [(0, CallSetDirty True), (0, CallAdd [VEnt 1])] tagState) 0
   \<and> c_items (collection_at
         (collectionCalls_run demoEnv [(0, CallSetDirty True), (0, CallAdd [VEnt 1])] tagState) 0) = [1]"
proof -
  have h1: "\<not> p_owner (c_property (collection_at tagState 0))"
    by (simp add: tagState_def emptyState_def collection_at_def newCollection_def tagBooks_def)
  have h2: "\<not> isDirty tagState 0"
    by (simp add: isDirty_def tagState_def emptyState_def collection_at_def newCollection_def)
  have h3: "c_items (collection_at
         (collectionCalls_run demoEnv [(0, CallSetDirty True), (0, CallAdd [VEnt 1])] tagState) 0) = [1]"
    by (simp only: tagState_run) (simp add: collection_at_def)
  from inverse_collection_never_dirty [OF h1 h2, of demoEnv "[(0, CallSetDirty True), (0, CallAdd [VEnt 1])]"]
  show ?thesis using h1 h2 h3 by simp
qed

subsection \<open>Modifying the inverse side of a many-to-many relation\<close>

lemma owningSideNotInitialized_wellTyped:
  "owningSideWellTyped st m item \<Longrightarrow>
     owningSideNotInitialized st m item = Inr (\<not> owningSideLoaded st m item)"
  by (auto simp: owningSideWellTyped_def owningSideNotInitialized_def owningSideLoaded_def
      Collection_isInitialized_def Let_def split: val.splits)

lemma findNotInitialized_wellTyped:
  "\<forall>item\<in>set items. owningSideWellTyped st m item \<Longrightarrow>
     findNotInitialized st m items = Inr (\<exists>item\<in>set items. \<not> owningSideLoaded st m item)"
  by (induction items) (auto simp: owningSideNotInitialized_wellTyped split: bool.splits)

lemma validateModification_inverse:
  assumes "p_reference (c_property (collection_at st c)) = MANY_TO_MANY"
    and "p_mappedBy (c_property (collection_at st c)) \<noteq> []"
    and "\<forall>item\<in>set items. owningSideWellTyped st (p_mappedBy (c_property (collection_at st c))) item"
  shows "validateModification c items st =
     (if \<exists>item\<in>set items. \<not> owningSideLoaded st (p_mappedBy (c_property (collection_at st c))) item
      then Inl (CannotModifyInverseCollection, st) else Inr st)"
  using assms by (simp add: validateModification_def findNotInitialized_wellTyped)

text \<open>
  \<^verbatim>\<open>set\<close> validates the items it replaces, too, through the \<^verbatim>\<open>remove\<close> of the inherited
  \<^verbatim>\<open>set\<close>: with book 2, whose collection of tags is not initialized, in the collection of
  the tag, \<^verbatim>\<open>set\<close> of book 1 throws and leaves book 2 in.
\<close>

lemma set_validates_current_items:
  "Collection_set demoEnv 0 [VEnt 1] (update_collection 0 (\<lambda>x. x\<lparr> c_items := [2] \<rparr>) tagState)
     = Inl (CannotModifyInverseCollection, update_collection 0 (\<lambda>x. x\<lparr> c_items := [2] \<rparr>) tagState)"
  by code_simp


subsection \<open>Merging an entity without a primary key\<close>

lemma entity_at_update_entity:
  "entity_at (update_entity e f st) e' =
     (if e' = e \<and> e < length (entities st) then f (entity_at st e) else entity_at st e')"
  by (auto simp: entity_at_def update_entity_def)

text \<open>
  Claim C9. For an entity whose primary key is not set (or is falsy), \<^verbatim>\<open>merge\<close> returns
  without cascading (\<open>visited\<close> comes back as it went in), and the state it leaves differs
  from the one it found only in \<^verbatim>\<open>__em\<close> of that entity: the identity map, the snapshots
  and every other field of the unit of work are unchanged.
\<close>

theorem merge_without_primary_key:
  assumes "\<not> truthy (e_primaryKey (entity_at st entity))"
  shows "\<exists>st'. merge (Suc n) env entity visited mergeData st = Some (Inr (visited, st'))
     \<and> st' = st\<lparr> entities := entities st' \<rparr>
     \<and> length (entities st') = length (entities st)
     \<and> (\<forall>e. entity_at st' e =
            (if e = entity \<and> e < length (entities st) then (entity_at st e)\<lparr> e_em := True \<rparr>
             else entity_at st e))
     \<and> identityMap st' = identityMap st
     \<and> originalEntityData st' = originalEntityData st"
proof -
  let ?st' = "update_entity entity (\<lambda>x. x\<lparr> e_em := True \<rparr>) st"
  have pk: "e_primaryKey (entity_at ?st' entity) = e_primaryKey (entity_at st entity)"
    by (simp add: entity_at_update_entity)
  have m: "merge (Suc n) env entity visited mergeData st = Some (Inr (visited, ?st'))"
    using assms pk by (simp add: Let_def)
  have f: "?st' = st\<lparr> entities := entities ?st' \<rparr>" by (simp add: update_entity_def)
  have l: "length (entities ?st') = length (entities st)" by (simp add: update_entity_def)
  have e: "\<forall>e. entity_at ?st' e =
            (if e = entity \<and> e < length (entities st) then (entity_at st e)\<lparr> e_em := True \<rparr>
             else entity_at st e)"
    by (simp add: entity_at_update_entity)
  have i: "identityMap ?st' = identityMap st" "originalEntityData ?st' = originalEntityData st"
    by (simp_all add: update_entity_def)
  show ?thesis using m f l e i by blast
qed

theorem merge_without_primary_key_witness:
  "\<not> truthy (e_primaryKey (entity_at lockState 2))
   \<and> (\<exists>st'. merge 1 demoEnv 2 [] True lockState = Some (Inr ([], st'))
         \<and> e_em (entity_at st' 2) \<and> identityMap st' = identityMap lockState
         \<and> originalEntityData st' = originalEntityData lockState)"
proof -
  have h: "\<not> truthy (e_primaryKey (entity_at lockState 2))"
    by (simp add: lockState_def emptyState_def entity_at_def demoEntity_def)
  have l: "2 < length (entities lockState)" by (simp add: lockState_def emptyState_def)
  from merge_without_primary_key [OF h, of 0 demoEnv "[]" True]
  obtain st' where "merge (Suc 0) demoEnv 2 [] True lockState = Some (Inr ([], st'))"
    and "\<forall>e. entity_at st' e =
            (if e = 2 \<and> e < length (entities lockState) then (entity_at lockState e)\<lparr> e_em := True \<rparr>
             else entity_at lockState e)"
    and "identityMap st' = identityMap lockState"
    and "originalEntityData st' = originalEntityData lockState"
    by blast
  then have "merge 1 demoEnv 2 [] True lockState = Some (Inr ([], st'))
         \<and> e_em (entity_at st' 2) \<and> identityMap st' = identityMap lockState
         \<and> originalEntityData st' = originalEntityData lockState"
    using l by simp
  then show ?thesis using h by blast
qed

subsection \<open>Optimistic locking\<close>

text \<open>
  Claim C6, as amended. For an entity the identity map holds,
  \<^verbatim>\<open>lock(entity, OPTIMISTIC, version)\<close> throws the not-versioned error when the metadata of
  its type has no version property; returns with the state unchanged when \<open>version\<close> is
  undefined; and otherwise, for a loaded entity, throws the version-mismatch error when
  \<open>version\<close> is not the value of the entity's version property, with the whole state, so
  the identity map, the snapshots and the entity, unchanged. An entity that is not loaded
  is first initialized (\<^verbatim>\<open>wrap(entity).init()\<close>, a collaborator): an error of that call is
  the error of \<^verbatim>\<open>lock\<close>, and otherwise the comparison reads, and the throw leaves, the state
  that call returned.
\<close>

theorem lock_optimistic:
  assumes "isManaged env st entity"
  shows "(versionPropertyOf env st entity = [] \<longrightarrow>
           lock env entity OPTIMISTIC version st = Inl (NotVersioned, st))
    \<and> (versionPropertyOf env st entity \<noteq> [] \<and> version = VUndef \<longrightarrow>
           lock env entity OPTIMISTIC version st = Inr st)
    \<and> (versionPropertyOf env st entity \<noteq> [] \<and> version \<noteq> VUndef \<and> e_initialized (entity_at st entity)
         \<and> version \<noteq> get_field st entity (versionPropertyOf env st entity) \<longrightarrow>
           lock env entity OPTIMISTIC version st = Inl (LockFailedVersionMismatch, st))
    \<and> (versionPropertyOf env st entity \<noteq> [] \<and> version \<noteq> VUndef \<and> \<not> e_initialized (entity_at st entity)
         \<and> init_entity env entity st = Inr st1
         \<and> version \<noteq> get_field st1 entity (versionPropertyOf env st entity) \<longrightarrow>
           lock env entity OPTIMISTIC version st = Inl (LockFailedVersionMismatch, st1))
    \<and> (versionPropertyOf env st entity \<noteq> [] \<and> version \<noteq> VUndef \<and> \<not> e_initialized (entity_at st entity)
         \<and> init_entity env entity st = Inl err \<longrightarrow>
           lock env entity OPTIMISTIC version st = Inl err)"
  using assms by (auto simp: lock_def lockOptimistic_def Let_def isManaged_def versionPropertyOf_def)

text \<open>
  The claim as stated covers every managed entity. Author 3 is managed and not loaded;
  \<^verbatim>\<open>lock\<close> with a version that is not its version has it loaded, which gives it a
  snapshot and its data, and then throws the version-mismatch error.
\<close>

theorem lock_optimistic_counterexample:
  "isManaged loadingEnv referenceState 3
   \<and> versionPropertyOf loadingEnv referenceState 3 = ''version''
   \<and> get_field referenceState 3 ''version'' \<noteq> VNum 2
   \<and> lock loadingEnv 3 OPTIMISTIC (VNum 2) referenceState = Inl (LockFailedVersionMismatch, loadedState)
   \<and> get_field loadedState 3 ''version'' \<noteq> VNum 2
   \<and> map_of (originalEntityData referenceState) ''u3'' = None
   \<and> map_of (originalEntityData loadedState) ''u3'' = Some [(''name'', VStr ''Cy''), (''version'', VNum 1)]
   \<and> \<not> e_initialized (entity_at referenceState 3)
   \<and> e_initialized (entity_at loadedState 3)"
  by code_simp

theorem lock_optimistic_witness:
  "isManaged demoEnv lockState 0
   \<and> versionPropertyOf demoEnv lockState 0 = ''version''
   \<and> e_initialized (entity_at lockState 0)
   \<and> get_field lockState 0 ''version'' = VNum 1
   \<and> lock demoEnv 0 OPTIMISTIC (VNum 2) lockState = Inl (LockFailedVersionMismatch, lockState)
   \<and> lock demoEnv 0 OPTIMISTIC VUndef lockState = Inr lockState
   \<and> isManaged demoEnv lockState 1
   \<and> versionPropertyOf demoEnv lockState 1 = []
   \<and> lock demoEnv 1 OPTIMISTIC (VNum 2) lockState = Inl (NotVersioned, lockState)
   \<and> isManaged loadingEnv referenceState 3
   \<and> versionPropertyOf loadingEnv referenceState 3 = ''version''
   \<and> \<not> e_initialized (entity_at referenceState 3)
   \<and> init_entity loadingEnv 3 referenceState = Inr loadedState
   \<and> get_field loadedState 3 ''version'' = VNum 1
   \<and> lock loadingEnv 3 OPTIMISTIC (VNum 2) referenceState = Inl (LockFailedVersionMismatch, loadedState)"
proof -
  have g0: "isManaged demoEnv lockState 0"
    by (simp add: isManaged_def getById_def lockState_def emptyState_def entity_at_def demoEntity_def
        demoEnv_def demoHash_def)
  have v0: "versionPropertyOf demoEnv lockState 0 = ''version''"
    by (simp add: versionPropertyOf_def lockState_def emptyState_def entity_at_def demoEntity_def
        demoEnv_def demoMetadata_def)
  have i0: "e_initialized (entity_at lockState 0)"
    by (simp add: lockState_def emptyState_def entity_at_def demoEntity_def)
  have f0: "get_field lockState 0 ''version'' = VNum 1"
    by (simp add: get_field_def lockState_def emptyState_def entity_at_def demoEntity_def)
  have g1: "isManaged demoEnv lockState 1"
    by (simp add: isManaged_def getById_def lockState_def emptyState_def entity_at_def demoEntity_def
        demoEnv_def demoHash_def)
  have v1: "versionPropertyOf demoEnv lockState 1 = []"
    by (simp add: versionPropertyOf_def lockState_def emptyState_def entity_at_def demoEntity_def
        demoEnv_def demoMetadata_def)
  have g3: "isManaged loadingEnv referenceState 3" by code_simp
  have v3: "versionPropertyOf loadingEnv referenceState 3 = ''version''" by code_simp
  have i3: "\<not> e_initialized (entity_at referenceState 3)" by code_simp
  have l3: "init_entity loadingEnv 3 referenceState = Inr loadedState" by code_simp
  have f3: "get_field loadedState 3 ''version'' = VNum 1" by code_simp
  have a: "lock demoEnv 0 OPTIMISTIC (VNum 2) lockState = Inl (LockFailedVersionMismatch, lockState)
    \<and> lock demoEnv 0 OPTIMISTIC VUndef lockState = Inr lockState
    \<and> lock demoEnv 1 OPTIMISTIC (VNum 2) lockState = Inl (NotVersioned, lockState)"
    using lock_optimistic [OF g0, of "VNum 2"] lock_optimistic [OF g0, of VUndef]
       lock_optimistic [OF g1, of "VNum 2"] v0 i0 f0 v1
    by simp
  have b: "lock loadingEnv 3 OPTIMISTIC (VNum 2) referenceState = Inl (LockFailedVersionMismatch, loadedState)"
    using lock_optimistic [OF g3, of "VNum 2" loadedState] v3 i3 l3 f3 by simp
  show ?thesis using g0 v0 i0 f0 g1 v1 g3 v3 i3 l3 f3 a b by simp
qed

subsection \<open>The cascade walk\<close>

lemma bindR_Some_Inr:
  "bindR m f = Some (Inr r) \<longleftrightarrow> (\<exists>a. m = Some (Inr a) \<and> f a = Some (Inr r))"
  by (auto simp: bindR_def split: option.splits sum.splits)

lemma persist_Suc:
  "persist (Suc n) env entity visited checkRemoveStack st =
     (if entity \<in> set (persistStack st) \<or> (checkRemoveStack \<and> entity \<in> set (removeStack st))
      then Some (Inr (visited, st))
      else cascade n env entity PERSIST visited checkRemoveStack (persistEntered st entity))"
  by (auto simp: persistEntered_def Let_def)

lemma remove_Suc:
  "remove (Suc n) env entity visited st =
     (if entity \<in> set (removeStack st) then Some (Inr (visited, st))
      else cascade n env entity REMOVE visited False (removeEntered st entity))"
  by (simp add: removeEntered_def Let_def)

lemma merge_Suc:
  "merge (Suc n) env entity visited mergeData st =
     (if \<not> truthy (e_primaryKey (entity_at st entity))
      then Some (Inr (visited, update_entity entity (\<lambda>x. x\<lparr> e_em := True \<rparr>) st))
      else cascade n env entity MERGE visited False
             (mergeEntered env (update_entity entity (\<lambda>x. x\<lparr> e_em := True \<rparr>) st) entity mergeData))"
  by (auto simp: mergeEntered_def Let_def entity_at_def update_entity_def)

lemma cascade_family_relation:
  fixes R :: "Cascade \<Rightarrow> eid list \<times> 'w state \<Rightarrow> eid list \<times> 'w state \<Rightarrow> bool"
  assumes rfl: "\<And>t a. R t a a"
    and trn: "\<And>t a b c. R t a b \<Longrightarrow> R t b c \<Longrightarrow> R t a c"
    and push: "\<And>t v st e. e \<notin> set v \<Longrightarrow> R t (v, st) (v @ [e], st)"
    and persist_step: "\<And>v st e. e \<notin> set (persistStack st) \<Longrightarrow>
        R PERSIST (v, st) (v, persistEntered st e)"
    and remove_step: "\<And>v st e. e \<notin> set (removeStack st) \<Longrightarrow>
        R REMOVE (v, st) (v, removeEntered st e)"
    and merge_em: "\<And>v st e. R MERGE (v, st) (v, update_entity e (\<lambda>x. x\<lparr> e_em := True \<rparr>) st)"
    and merge_step: "\<And>env v st e md. truthy (e_primaryKey (entity_at st e)) \<Longrightarrow>
        R MERGE (v, st) (v, mergeEntered env st e md)"
    and fix_step: "\<And>env t v st e p st'. fixMissingReference env e p st = Inr st' \<Longrightarrow>
        R t (v, st) (v, st')"
  shows "\<forall>r. persist n env e v c st = Some (Inr r) \<longrightarrow> R PERSIST (v, st) r"
    and "\<forall>r. remove n env e v st = Some (Inr r) \<longrightarrow> R REMOVE (v, st) r"
    and "\<forall>r. merge n env e v md st = Some (Inr r) \<longrightarrow> R MERGE (v, st) r"
    and "\<forall>r. cascade n env e t v c st = Some (Inr r) \<longrightarrow> R t (v, st) r"
    and "\<forall>r. cascadeProperties n env e props t v c st = Some (Inr r) \<longrightarrow> R t (v, st) r"
    and "\<forall>r. cascadeReference n env e pr t v c st = Some (Inr r) \<longrightarrow> R t (v, st) r"
    and "\<forall>r. cascadeItems n env items t v c st = Some (Inr r) \<longrightarrow> R t (v, st) r"
proof (induct n env e v c st and n env e v st and n env e v md st and n env e t v c st
    and n env e props t v c st and n env e pr t v c st and n env items t v c st
    rule: persist_remove_merge_cascade_cascadeProperties_cascadeReference_cascadeItems.induct)
  case (1 env entity visited checkRemoveStack st)
  then show ?case by simp
next
  case (2 n env entity visited checkRemoveStack st)
  show ?case
  proof (intro allI impI)
    fix r assume a: "persist (Suc n) env entity visited checkRemoveStack st = Some (Inr r)"
    show "R PERSIST (visited, st) r"
    proof (cases "entity \<in> set (persistStack st) \<or> (checkRemoveStack \<and> entity \<in> set (removeStack st))")
      case True
      then have "r = (visited, st)" using a unfolding persist_Suc by simp
      then show ?thesis by (simp add: rfl)
    next
      case False
      have c: "cascade n env entity PERSIST visited checkRemoveStack (persistEntered st entity) = Some (Inr r)"
        using a False unfolding persist_Suc by simp
      have "\<forall>r. cascade n env entity PERSIST visited checkRemoveStack (persistEntered st entity) = Some (Inr r)
              \<longrightarrow> R PERSIST (visited, persistEntered st entity) r"
        using 2 [OF _ _ refl refl refl] False unfolding persistEntered_def Let_def by blast
      then have "R PERSIST (visited, persistEntered st entity) r" using c by blast
      moreover have "R PERSIST (visited, st) (visited, persistEntered st entity)"
        using persist_step [of entity st visited] False by simp
      ultimately show ?thesis by (rule trn [rotated])
    qed
  qed
next
  case (3 env entity visited st)
  then show ?case by simp
next
  case (4 n env entity visited st)
  show ?case
  proof (intro allI impI)
    fix r assume a: "remove (Suc n) env entity visited st = Some (Inr r)"
    show "R REMOVE (visited, st) r"
    proof (cases "entity \<in> set (removeStack st)")
      case True
      then have "r = (visited, st)" using a unfolding remove_Suc by simp
      then show ?thesis by (simp add: rfl)
    next
      case False
      have c: "cascade n env entity REMOVE visited False (removeEntered st entity) = Some (Inr r)"
        using a False unfolding remove_Suc by simp
      have "\<forall>r. cascade n env entity REMOVE visited False (removeEntered st entity) = Some (Inr r)
              \<longrightarrow> R REMOVE (visited, removeEntered st entity) r"
        using 4 [OF _ refl refl refl] False unfolding removeEntered_def Let_def by blast
      then have "R REMOVE (visited, removeEntered st entity) r" using c by blast
      moreover have "R REMOVE (visited, st) (visited, removeEntered st entity)"
        using remove_step [of entity st visited] False by simp
      ultimately show ?thesis by (rule trn [rotated])
    qed
  qed
next
  case (5 env entity visited mergeData st)
  then show ?case by simp
next
  case (6 n env entity visited mergeData st)
  show ?case
  proof (intro allI impI)
    fix r assume a: "merge (Suc n) env entity visited mergeData st = Some (Inr r)"
    let ?st1 = "update_entity entity (\<lambda>x. x\<lparr> e_em := True \<rparr>) st"
    have r1: "R MERGE (visited, st) (visited, ?st1)" by (rule merge_em)
    have pk: "e_primaryKey (entity_at ?st1 entity) = e_primaryKey (entity_at st entity)"
      by (auto simp: entity_at_def update_entity_def)
    show "R MERGE (visited, st) r"
    proof (cases "truthy (e_primaryKey (entity_at st entity))")
      case False
      then have "r = (visited, ?st1)" using a unfolding merge_Suc by simp
      then show ?thesis using r1 by simp
    next
      case True
      have c: "cascade n env entity MERGE visited False (mergeEntered env ?st1 entity mergeData) = Some (Inr r)"
        using a True unfolding merge_Suc by simp
      have "\<forall>r. cascade n env entity MERGE visited False (mergeEntered env ?st1 entity mergeData) = Some (Inr r)
              \<longrightarrow> R MERGE (visited, mergeEntered env ?st1 entity mergeData) r"
        using 6 [OF refl _ refl refl] True pk unfolding mergeEntered_def Let_def by simp
      then have "R MERGE (visited, mergeEntered env ?st1 entity mergeData) r" using c by blast
      moreover have "truthy (e_primaryKey (entity_at ?st1 entity))" using True pk by simp
      then have "R MERGE (visited, ?st1) (visited, mergeEntered env ?st1 entity mergeData)"
        by (rule merge_step)
      ultimately show ?thesis using r1 by (meson trn)
    qed
  qed
next
  case (7 env entity type visited checkRemoveStack st)
  then show ?case by simp
next
  case (8 n env entity type visited checkRemoveStack st)
  show ?case
  proof (intro allI impI)
    fix r assume a: "cascade (Suc n) env entity type visited checkRemoveStack st = Some (Inr r)"
    show "R type (visited, st) r"
    proof (cases "entity \<in> set visited")
      case True
      then have "r = (visited, st)" using a by simp
      then show ?thesis by (simp add: rfl)
    next
      case False
      from a False obtain v1 st1 where
        op: "(case type of
           PERSIST \<Rightarrow> persist n env entity (visited @ [entity]) checkRemoveStack st
         | MERGE \<Rightarrow> merge n env entity (visited @ [entity]) True st
         | REMOVE \<Rightarrow> remove n env entity (visited @ [entity]) st
         | Cascade_ALL \<Rightarrow> Some (Inr (visited @ [entity], st))) = Some (Inr (v1, st1))"
        and ps: "cascadeProperties n env entity
             (filter (\<lambda>prop. p_reference prop \<noteq> SCALAR)
                (m_properties (metadata env (e_constructor_name (entity_at st1 entity)))))
             type v1 checkRemoveStack st1 = Some (Inr r)"
        by (auto simp: bindR_Some_Inr)
      have "R type (visited @ [entity], st) (v1, st1)"
        using op "8.hyps"(1-3) False by (cases type) (auto simp: rfl)
      moreover have "R type (visited, st) (visited @ [entity], st)" using False by (rule push)
      moreover have "R type (v1, st1) r" using "8.hyps"(4) [OF False] ps by blast
      ultimately show ?thesis by (meson trn)
    qed
  qed
next
  case (9 n env entity type visited checkRemoveStack st)
  then show ?case by (simp add: rfl)
next
  case (10 n env entity p props type visited checkRemoveStack st)
  show ?case
  proof (intro allI impI)
    fix r assume a: "cascadeProperties n env entity (p # props) type visited checkRemoveStack st = Some (Inr r)"
    then obtain v1 st1 where
      f: "cascadeReference n env entity p type visited checkRemoveStack st = Some (Inr (v1, st1))"
      and g: "cascadeProperties n env entity props type v1 checkRemoveStack st1 = Some (Inr r)"
      by (auto simp: bindR_Some_Inr)
    show "R type (visited, st) r" using 10 f g by (meson trn)
  qed
next
  case (11 env entity p type visited checkRemoveStack st)
  then show ?case by simp
next
  case (12 n env entity p type visited checkRemoveStack st)
  show ?case
  proof (intro allI impI)
    fix r assume a: "cascadeReference (Suc n) env entity p type visited checkRemoveStack st = Some (Inr r)"
    then obtain st1 where fx: "fixMissingReference env entity p st = Inr st1"
      by (auto split: sum.splits)
    have r1: "R type (visited, st) (visited, st1)" using fx by (rule fix_step)
    have one: "R type (visited, st1) r"
      if "shouldCascade p type" "p_reference p \<in> {MANY_TO_ONE, ONE_TO_ONE}"
        "unwrapReference st1 entity p = VEnt x6"
        "cascade n env x6 type visited checkRemoveStack st1 = Some (Inr r)" for x6
      using "12.hyps"(1) [OF fx, of "VEnt x6" x6] that by simp
    have many: "R type (visited, st1) r"
      if "shouldCascade p type" "p_reference p \<in> {ONE_TO_MANY, MANY_TO_MANY}"
        "unwrapReference st1 entity p = VColl x8" "Collection_isInitialized st1 x8 (type = PERSIST)"
        "cascadeItems n env (c_items (collection_at st1 x8)) type visited checkRemoveStack st1 = Some (Inr r)"
      for x8
      using "12.hyps"(2) [OF fx, of "VColl x8" x8] that by auto
    have "R type (visited, st1) r"
      using a fx one many
      by (auto simp: rfl Let_def split: if_splits val.splits)
    then show "R type (visited, st) r" using r1 by (meson trn)
  qed
next
  case (13 n env type visited checkRemoveStack st)
  then show ?case by (simp add: rfl)
next
  case (14 n env item items type visited checkRemoveStack st)
  show ?case
  proof (intro allI impI)
    fix r assume a: "cascadeItems n env (item # items) type visited checkRemoveStack st = Some (Inr r)"
    then obtain v1 st1 where
      f: "cascade n env item type visited checkRemoveStack st = Some (Inr (v1, st1))"
      and g: "cascadeItems n env items type v1 checkRemoveStack st1 = Some (Inr r)"
      by (auto simp: bindR_Some_Inr)
    show "R type (visited, st) r" using 14 f g by (meson trn)
  qed
qed

lemma cleanUpStack_subset: "set (cleanUpStack xs e) \<subseteq> set xs"
  by (induction xs e rule: cleanUpStack.induct) (auto split: list.splits)

lemma cleanUpStack_absent: "e \<notin> set xs \<Longrightarrow> cleanUpStack xs e = xs"
  by (induction xs e rule: cleanUpStack.induct) (auto split: list.splits)

lemma cleanUpStack_distinct: "distinct xs \<Longrightarrow> cleanUpStack xs e = filter (\<lambda>x. x \<noteq> e) xs"
proof (induction xs e rule: cleanUpStack.induct)
  case (1 entity)
  then show ?case by simp
next
  case (2 x xs entity)
  show ?case
  proof (cases "x = entity")
    case True
    then have "entity \<notin> set xs" using 2(3) by simp
    then have "filter (\<lambda>x. x \<noteq> entity) xs = xs" by (auto simp: filter_id_conv)
    moreover have "(case xs of [] \<Rightarrow> [] | y # ys \<Rightarrow> y # cleanUpStack ys entity) = xs"
      using \<open>entity \<notin> set xs\<close> by (cases xs) (auto simp: cleanUpStack_absent)
    ultimately show ?thesis using True by simp
  next
    case False
    then show ?thesis using 2 by simp
  qed
qed

lemma sameUnitOfWork_refl: "sameUnitOfWork st st"
  by (simp add: sameUnitOfWork_def)

lemma sameUnitOfWork_trans: "sameUnitOfWork a b \<Longrightarrow> sameUnitOfWork b c \<Longrightarrow> sameUnitOfWork a c"
  by (simp add: sameUnitOfWork_def)

lemma sameUnitOfWork_cancel_fold:
  "sameUnitOfWork st (foldl (\<lambda>s item. cancelOrphanRemoval item s) st items)"
proof (induction items arbitrary: st)
  case Nil then show ?case by (simp add: sameUnitOfWork_refl)
next
  case (Cons a items)
  have "sameUnitOfWork st (cancelOrphanRemoval a st)"
    by (simp add: sameUnitOfWork_def cancelOrphanRemoval_def)
  then show ?case using Cons [of "cancelOrphanRemoval a st"] by (auto intro: sameUnitOfWork_trans)
qed

text \<open>The methods of a collection write the collections and the orphan-removal stack only.\<close>

lemma frame_cancel_fold:
  "sameUnitOfWork st (foldl (\<lambda>s item. cancelOrphanRemoval item s) st items)
   \<and> entities (foldl (\<lambda>s item. cancelOrphanRemoval item s) st items) = entities st"
proof (induction items arbitrary: st)
  case Nil then show ?case by (simp add: sameUnitOfWork_refl)
next
  case (Cons a items)
  have "sameUnitOfWork st (cancelOrphanRemoval a st)"
    "entities (cancelOrphanRemoval a st) = entities st"
    by (simp_all add: sameUnitOfWork_def cancelOrphanRemoval_def)
  then show ?case using Cons [of "cancelOrphanRemoval a st"] by (auto intro: sameUnitOfWork_trans)
qed

lemma frame_schedule_fold:
  "sameUnitOfWork st (foldl (\<lambda>s item. scheduleOrphanRemoval item s) st items)
   \<and> entities (foldl (\<lambda>s item. scheduleOrphanRemoval item s) st items) = entities st"
proof (induction items arbitrary: st)
  case Nil then show ?case by (simp add: sameUnitOfWork_refl)
next
  case (Cons a items)
  have "sameUnitOfWork st (scheduleOrphanRemoval a st)"
    "entities (scheduleOrphanRemoval a st) = entities st"
    by (simp_all add: sameUnitOfWork_def scheduleOrphanRemoval_def)
  then show ?case using Cons [of "scheduleOrphanRemoval a st"] by (auto intro: sameUnitOfWork_trans)
qed

lemma frame_Collection_cancelOrphanRemoval:
  "sameUnitOfWork st (Collection_cancelOrphanRemoval c items st)
   \<and> entities (Collection_cancelOrphanRemoval c items st) = entities st"
  by (simp add: Collection_cancelOrphanRemoval_def frame_cancel_fold sameUnitOfWork_refl)

lemma frame_setDirty:
  "sameUnitOfWork st (setDirty c d st) \<and> entities (setDirty c d st) = entities st"
  by (simp add: sameUnitOfWork_def setDirty_def update_collection_def)

lemma frame_modify:
  assumes "modify env c m items st = Inr st'"
  shows "sameUnitOfWork st st' \<and> entities st' = entities st"
  using assms
  by (auto simp: modify_def sameUnitOfWork_def setDirty_def update_collection_def
      split: sum.splits dest!: validateModification_state checkInitialized_state)

lemma frame_Collection_add:
  assumes "Collection_add env c items st = Inr st'"
  shows "sameUnitOfWork st st' \<and> entities st' = entities st"
proof -
  obtain s where m: "modify env c method_add (map the_entity items) st = Inr s"
    and r: "st' = Collection_cancelOrphanRemoval c (map the_entity items) s"
    using assms by (auto simp: Collection_add_def validateItemTypes_def split: if_splits sum.splits)
  show ?thesis
    using frame_modify [OF m] frame_Collection_cancelOrphanRemoval [of s c "map the_entity items"] r
    by (auto intro: sameUnitOfWork_trans)
qed

lemma frame_Collection_remove:
  assumes "Collection_remove env c items st = Inr st'"
  shows "sameUnitOfWork st st' \<and> entities st' = entities st"
proof -
  obtain s where m: "modify env c method_remove items st = Inr s"
    and r: "st' = s \<or> st' = foldl (\<lambda>s item. scheduleOrphanRemoval item s) s items"
    using assms by (auto simp: Collection_remove_def split: if_splits sum.splits)
  show ?thesis
    using frame_modify [OF m] frame_schedule_fold [of s items] r
    by (auto intro: sameUnitOfWork_trans)
qed

lemma frame_Collection_set:
  assumes "Collection_set env c items st = Inr st'"
  shows "sameUnitOfWork st st' \<and> entities st' = entities st"
proof -
  obtain s1 s2 where rm: "Collection_remove env c (c_items (collection_at st c)) st = Inr s1"
    and ad: "Collection_add env c items s1 = Inr s2"
    and r: "st' = Collection_cancelOrphanRemoval c (map the_entity items) (setDirty c True s2)"
    using assms
    by (auto simp: Collection_set_def ArrayCollection_set_def validateItemTypes_def
        split: if_splits sum.splits dest!: validateModification_state)
  have "sameUnitOfWork st s2 \<and> entities s2 = entities st"
    using frame_Collection_remove [OF rm] frame_Collection_add [OF ad]
    by (auto intro: sameUnitOfWork_trans)
  moreover have "sameUnitOfWork s2 st' \<and> entities st' = entities s2"
    using frame_setDirty [of s2 c True]
      frame_Collection_cancelOrphanRemoval [of "setDirty c True s2" c "map the_entity items"] r
    by (auto intro: sameUnitOfWork_trans)
  ultimately show ?thesis by (auto intro: sameUnitOfWork_trans)
qed

lemma sameUnitOfWork_Collection_set:
  "Collection_set env c items st = Inr st' \<Longrightarrow> sameUnitOfWork st st'"
  using frame_Collection_set by blast

lemma entities_Collection_set:
  "Collection_set env c items st = Inr st' \<Longrightarrow> entities st' = entities st"
  using frame_Collection_set by blast

lemma sameUnitOfWork_entities: "sameUnitOfWork st (st\<lparr> entities := es \<rparr>)"
  by (simp add: sameUnitOfWork_def)

lemma sameUnitOfWork_collections: "sameUnitOfWork st (st\<lparr> collections := cs \<rparr>)"
  by (simp add: sameUnitOfWork_def)

lemma sameUnitOfWork_set_field: "sameUnitOfWork st (set_field e n v st)"
  by (simp add: sameUnitOfWork_def set_field_def update_entity_def)

lemma sameUnitOfWork_fixMissingReference:
  assumes "fixMissingReference env e p st = Inr st'"
  shows "sameUnitOfWork st st'"
proof -
  let ?reference = "unwrapReference st e p"
  let ?st1 = "(if p_reference p \<in> {MANY_TO_ONE, ONE_TO_ONE} \<and> truthy ?reference \<and> \<not> isEntity ?reference
                 then (case getReference env (p_type p) ?reference (p_wrappedReference p) st of
                         (r, s) \<Rightarrow> set_field e (p_name p) r s)
                 else st)"
  have s1: "sameUnitOfWork st ?st1"
    by (auto simp: getReference_def Let_def sameUnitOfWork_refl
        intro: sameUnitOfWork_trans [OF sameUnitOfWork_entities sameUnitOfWork_set_field])
  show ?thesis
  proof (cases "p_reference p \<in> {ONE_TO_MANY, MANY_TO_MANY} \<and> isArray ?reference")
    case False
    then have "st' = ?st1" using assms by (auto simp: fixMissingReference_def Let_def)
    then show ?thesis using s1 by simp
  next
    case True
    let ?st3 = "set_field e (p_name p) (VColl (length (collections ?st1)))
                  (?st1\<lparr> collections := collections ?st1 @ [newCollection e p] \<rparr>)"
    have "Collection_set env (length (collections ?st1)) (asArray ?reference) ?st3 = Inr st'"
      using assms True unfolding fixMissingReference_def Let_def by simp
    then have "sameUnitOfWork ?st3 st'" by (rule sameUnitOfWork_Collection_set)
    moreover have "sameUnitOfWork ?st1 ?st3"
      by (rule sameUnitOfWork_trans [OF sameUnitOfWork_collections sameUnitOfWork_set_field])
    ultimately show ?thesis using s1 by (auto intro: sameUnitOfWork_trans)
  qed
qed

declare persist.simps(2) [simp del] remove.simps(2) [simp del] merge.simps(2) [simp del]

lemma persistEntered_stacks:
  "persistStack (persistEntered st e) = persistStack st @ [e]"
  "removeStack (persistEntered st e) = cleanUpStack (removeStack st) e"
  by (simp_all add: persistEntered_def Let_def)

lemma removeEntered_stacks:
  "persistStack (removeEntered st e) = cleanUpStack (persistStack st) e"
  "removeStack (removeEntered st e) =
     (if truthy (e_primaryKey (entity_at st e)) then removeStack st @ [e] else removeStack st)"
  by (simp_all add: removeEntered_def Let_def unsetIdentity_def)

lemma mergeEntered_stacks:
  "persistStack (mergeEntered env st e md) = persistStack st"
  "removeStack (mergeEntered env st e md) = removeStack st"
  by (simp_all add: mergeEntered_def Let_def)

lemma update_entity_stacks:
  "persistStack (update_entity e f st) = persistStack st"
  "removeStack (update_entity e f st) = removeStack st"
  by (simp_all add: update_entity_def)

lemma stackGrowth_fix:
  "fixMissingReference env e p st = Inr st' \<Longrightarrow> stackGrowth t (v, st) (v, st')"
  using sameUnitOfWork_fixMissingReference [of env e p st st']
  by (simp add: sameUnitOfWork_def stackGrowth_def)

lemma stackGrowth_persist:
  "e \<notin> set (persistStack st) \<Longrightarrow> stackGrowth PERSIST (v, st) (v, persistEntered st e)"
  using cleanUpStack_subset [of "removeStack st" e]
  by (auto simp: stackGrowth_def persistEntered_stacks)

lemma stackGrowth_trans: "stackGrowth t a b \<Longrightarrow> stackGrowth t b c \<Longrightarrow> stackGrowth t a c"
  by (auto simp: stackGrowth_def)

lemma persist_walk_stacks:
  "\<forall>r. persist n env e v c st = Some (Inr r) \<longrightarrow> stackGrowth PERSIST (v, st) r"
  "\<forall>r. cascade n env e PERSIST v c st = Some (Inr r) \<longrightarrow> stackGrowth PERSIST (v, st) r"
proof -
  have rfl: "\<And>t a. stackGrowth t a a" by (simp add: stackGrowth_def)
  have push: "\<And>t v st e. e \<notin> set v \<Longrightarrow> stackGrowth t (v, st) (v @ [e], st)"
    by (simp add: stackGrowth_def)
  have rs: "\<And>v st e. e \<notin> set (removeStack st) \<Longrightarrow> stackGrowth REMOVE (v, st) (v, removeEntered st e)"
    by (simp add: stackGrowth_def)
  have me: "\<And>v st e. stackGrowth MERGE (v, st) (v, update_entity e (\<lambda>x. x\<lparr> e_em := True \<rparr>) st)"
    by (simp add: stackGrowth_def)
  have ms: "\<And>env v st e md. truthy (e_primaryKey (entity_at st e)) \<Longrightarrow>
        stackGrowth MERGE (v, st) (v, mergeEntered env st e md)"
    by (simp add: stackGrowth_def)
  show "\<forall>r. persist n env e v c st = Some (Inr r) \<longrightarrow> stackGrowth PERSIST (v, st) r"
    by (rule cascade_family_relation(1) [where R = stackGrowth, OF rfl stackGrowth_trans push
          stackGrowth_persist rs me ms stackGrowth_fix])
  show "\<forall>r. cascade n env e PERSIST v c st = Some (Inr r) \<longrightarrow> stackGrowth PERSIST (v, st) r"
    by (rule cascade_family_relation(4) [where R = stackGrowth, OF rfl stackGrowth_trans push
          stackGrowth_persist rs me ms stackGrowth_fix])
qed


lemma stacksInvariant_persistEntered:
  "stacksInvariant st \<Longrightarrow> e \<notin> set (persistStack st) \<Longrightarrow> stacksInvariant (persistEntered st e)"
  by (auto simp: stacksInvariant_def persistEntered_stacks cleanUpStack_distinct)

lemma stacksInvariant_removeEntered:
  "stacksInvariant st \<Longrightarrow> e \<notin> set (removeStack st) \<Longrightarrow> stacksInvariant (removeEntered st e)"
  by (auto simp: stacksInvariant_def removeEntered_stacks cleanUpStack_distinct)

lemma keepsInvariant_fix:
  "fixMissingReference env e p st = Inr st' \<Longrightarrow> keepsInvariant t (v, st) (v, st')"
  using sameUnitOfWork_fixMissingReference [of env e p st st']
  by (simp add: sameUnitOfWork_def keepsInvariant_def stacksInvariant_def)

lemma keepsInvariant_trans: "keepsInvariant t a b \<Longrightarrow> keepsInvariant t b c \<Longrightarrow> keepsInvariant t a c"
  by (auto simp: keepsInvariant_def)

lemma stacksInvariant_walk:
  "\<forall>r. persist n env e v c st = Some (Inr r) \<longrightarrow> keepsInvariant PERSIST (v, st) r"
  "\<forall>r. remove n env e v st = Some (Inr r) \<longrightarrow> keepsInvariant REMOVE (v, st) r"
  "\<forall>r. merge n env e v md st = Some (Inr r) \<longrightarrow> keepsInvariant MERGE (v, st) r"
proof -
  have rfl: "\<And>t a. keepsInvariant t a a" by (simp add: keepsInvariant_def)
  have push: "\<And>t v st e. e \<notin> set v \<Longrightarrow> keepsInvariant t (v, st) (v @ [e], st)"
    by (simp add: keepsInvariant_def)
  have ps: "\<And>v st e. e \<notin> set (persistStack st) \<Longrightarrow> keepsInvariant PERSIST (v, st) (v, persistEntered st e)"
    by (simp add: keepsInvariant_def stacksInvariant_persistEntered)
  have rs: "\<And>v st e. e \<notin> set (removeStack st) \<Longrightarrow> keepsInvariant REMOVE (v, st) (v, removeEntered st e)"
    by (simp add: keepsInvariant_def stacksInvariant_removeEntered)
  have me: "\<And>v st e. keepsInvariant MERGE (v, st) (v, update_entity e (\<lambda>x. x\<lparr> e_em := True \<rparr>) st)"
    by (simp add: keepsInvariant_def stacksInvariant_def update_entity_stacks)
  have ms: "\<And>env v st e md. truthy (e_primaryKey (entity_at st e)) \<Longrightarrow>
        keepsInvariant MERGE (v, st) (v, mergeEntered env st e md)"
    by (simp add: keepsInvariant_def stacksInvariant_def mergeEntered_stacks)
  show "\<forall>r. persist n env e v c st = Some (Inr r) \<longrightarrow> keepsInvariant PERSIST (v, st) r"
    by (rule cascade_family_relation(1) [where R = keepsInvariant, OF rfl keepsInvariant_trans push
          ps rs me ms keepsInvariant_fix])
  show "\<forall>r. remove n env e v st = Some (Inr r) \<longrightarrow> keepsInvariant REMOVE (v, st) r"
    by (rule cascade_family_relation(2) [where R = keepsInvariant, OF rfl keepsInvariant_trans push
          ps rs me ms keepsInvariant_fix])
  show "\<forall>r. merge n env e v md st = Some (Inr r) \<longrightarrow> keepsInvariant MERGE (v, st) r"
    by (rule cascade_family_relation(3) [where R = keepsInvariant, OF rfl keepsInvariant_trans push
          ps rs me ms keepsInvariant_fix])
qed

subsection \<open>Persisting and removing twice\<close>

text \<open>
  Claim C5. \<^verbatim>\<open>persist\<close> on an entity of the persist stack, and \<^verbatim>\<open>remove\<close> on an entity of
  the remove stack, return with the state (and \<open>visited\<close>) unchanged. After any
  \<^verbatim>\<open>persist(entity)\<close> that returned, a second \<^verbatim>\<open>persist\<close> of the entity changes nothing, so
  it adds no change set. And \<^verbatim>\<open>persist(entity)\<close>, called as the clients call it (without
  \<^verbatim>\<open>checkRemoveStack\<close>) in a state that satisfies the invariant of the stacks, leaves the
  entity off the remove stack, and keeps the invariant.
\<close>

theorem persist_remove_idempotent:
  "(entity \<in> set (persistStack st) \<longrightarrow>
      persist (Suc n) env entity visited checkRemoveStack st = Some (Inr (visited, st)))
   \<and> (entity \<in> set (removeStack st) \<longrightarrow>
      remove (Suc n) env entity visited st = Some (Inr (visited, st)))
   \<and> (persist k env entity visited checkRemoveStack st = Some (Inr (visited1, st1)) \<longrightarrow>
      persist (Suc n) env entity visited2 checkRemoveStack st1 = Some (Inr (visited2, st1))
      \<and> changeSets (snd (visited2, st1)) = changeSets st1)
   \<and> (stacksInvariant st \<and> persist k env entity visited False st = Some (Inr (visited1, st1)) \<longrightarrow>
      entity \<notin> set (removeStack st1) \<and> stacksInvariant st1)"
proof -
  have p1: "entity \<in> set (persistStack st) \<longrightarrow>
      persist (Suc n) env entity visited checkRemoveStack st = Some (Inr (visited, st))"
    by (simp add: persist_Suc)
  have p2: "entity \<in> set (removeStack st) \<longrightarrow>
      remove (Suc n) env entity visited st = Some (Inr (visited, st))"
    by (simp add: remove_Suc)
  have p3: "persist (Suc n) env entity visited2 checkRemoveStack st1 = Some (Inr (visited2, st1))"
    if a: "persist k env entity visited checkRemoveStack st = Some (Inr (visited1, st1))"
  proof -
    obtain k' where k: "k = Suc k'" using a by (cases k) auto
    show ?thesis
    proof (cases "entity \<in> set (persistStack st) \<or> (checkRemoveStack \<and> entity \<in> set (removeStack st))")
      case True
      then have "st1 = st" using a unfolding k persist_Suc by simp
      then show ?thesis using True by (simp add: persist_Suc)
    next
      case False
      then have "cascade k' env entity PERSIST visited checkRemoveStack (persistEntered st entity)
          = Some (Inr (visited1, st1))"
        using a unfolding k persist_Suc by auto
      then have "stackGrowth PERSIST (visited, persistEntered st entity) (visited1, st1)"
        using persist_walk_stacks(2) by blast
      then have "set (persistStack (persistEntered st entity)) \<subseteq> set (persistStack st1)"
        by (simp add: stackGrowth_def)
      then have "entity \<in> set (persistStack st1)" by (auto simp: persistEntered_stacks)
      then show ?thesis by (simp add: persist_Suc)
    qed
  qed
  have p4: "entity \<notin> set (removeStack st1) \<and> stacksInvariant st1"
    if inv: "stacksInvariant st" and a: "persist k env entity visited False st = Some (Inr (visited1, st1))"
  proof -
    obtain k' where k: "k = Suc k'" using a by (cases k) auto
    have "keepsInvariant PERSIST (visited, st) (visited1, st1)" using stacksInvariant_walk(1) a by blast
    then have i1: "stacksInvariant st1" using inv by (simp add: keepsInvariant_def)
    show ?thesis
    proof (cases "entity \<in> set (persistStack st)")
      case True
      then have "st1 = st" using a unfolding k persist_Suc by simp
      then show ?thesis using True inv by (auto simp: stacksInvariant_def)
    next
      case False
      then have c: "cascade k' env entity PERSIST visited False (persistEntered st entity)
          = Some (Inr (visited1, st1))"
        using a unfolding k persist_Suc by simp
      have "entity \<notin> set (removeStack (persistEntered st entity))"
        using inv by (simp add: persistEntered_stacks stacksInvariant_def cleanUpStack_distinct)
      moreover have "stackGrowth PERSIST (visited, persistEntered st entity) (visited1, st1)"
        using persist_walk_stacks(2) c by blast
      then have "set (removeStack st1) \<subseteq> set (removeStack (persistEntered st entity))"
        by (simp add: stackGrowth_def)
      ultimately show ?thesis using i1 by auto
    qed
  qed
  show ?thesis using p1 p2 p3 p4 by simp
qed

theorem persist_remove_idempotent_witness:
  "stacksInvariant removedState \<and> 0 \<in> set (removeStack removedState)
   \<and> persist 4 demoEnv 0 [] False removedState = Some (Inr ([0], repersistedState))
   \<and> 0 \<notin> set (removeStack repersistedState)
   \<and> 0 \<in> set (persistStack repersistedState)
   \<and> persist (Suc 0) demoEnv 0 [] False repersistedState = Some (Inr ([], repersistedState))"
proof -
  have h1: "stacksInvariant removedState"
    by (simp add: stacksInvariant_def removedState_def lockState_def emptyState_def)
  have h2: "persist 4 demoEnv 0 [] False removedState = Some (Inr ([0], repersistedState))"
    by code_simp
  have h3: "0 \<in> set (removeStack removedState)" by (simp add: removedState_def)
  have h4: "0 \<in> set (persistStack repersistedState)" by (simp add: repersistedState_def)
  from persist_remove_idempotent [where entity = 0 and st = removedState and env = demoEnv
      and visited = "[]" and checkRemoveStack = False and k = 4 and ?visited1.0 = "[0]"
      and ?st1.0 = repersistedState and n = 0 and ?visited2.0 = "[]"]
  show ?thesis using h1 h2 h3 h4 by simp
qed

subsection \<open>Removing an entity drops its identity\<close>

lemma identityDropped_removeEntered:
  assumes "distinct (persistStack st)"
  shows "identityDropped entity (identityKey st entity) (e_uuid (entity_at st entity)) (removeEntered st entity)"
proof -
  show ?thesis using assms
    by (auto simp: identityDropped_def removeEntered_def Let_def unsetIdentity_def identityKey_def
        entity_at_def cleanUpStack_distinct delete_conv)
qed

lemma identityDropped_removeEntered_other:
  "identityDropped entity k u st \<Longrightarrow> identityDropped entity k u (removeEntered st e)"
  using cleanUpStack_subset [of "persistStack st" e]
  by (auto simp: identityDropped_def removeEntered_def Let_def unsetIdentity_def delete_conv)

lemma keepsDropped_fix:
  "fixMissingReference env e p st = Inr st' \<Longrightarrow> keepsDropped entity k u t (v, st) (v, st')"
  using sameUnitOfWork_fixMissingReference [of env e p st st']
  by (simp add: sameUnitOfWork_def keepsDropped_def identityDropped_def)

lemma keepsDropped_trans:
  "keepsDropped entity k u t a b \<Longrightarrow> keepsDropped entity k u t b c \<Longrightarrow> keepsDropped entity k u t a c"
  by (auto simp: keepsDropped_def)

lemma remove_walk_dropped:
  "\<forall>r. cascade n env e REMOVE v c st = Some (Inr r) \<longrightarrow> keepsDropped entity k u REMOVE (v, st) r"
proof -
  have rfl: "\<And>t a. keepsDropped entity k u t a a" by (simp add: keepsDropped_def)
  have push: "\<And>t v st e. e \<notin> set v \<Longrightarrow> keepsDropped entity k u t (v, st) (v @ [e], st)"
    by (simp add: keepsDropped_def)
  have ps: "\<And>v st e. e \<notin> set (persistStack st) \<Longrightarrow>
      keepsDropped entity k u PERSIST (v, st) (v, persistEntered st e)"
    by (simp add: keepsDropped_def)
  have rs: "\<And>v st e. e \<notin> set (removeStack st) \<Longrightarrow>
      keepsDropped entity k u REMOVE (v, st) (v, removeEntered st e)"
    by (simp add: keepsDropped_def identityDropped_removeEntered_other)
  have me: "\<And>v st e. keepsDropped entity k u MERGE (v, st) (v, update_entity e (\<lambda>x. x\<lparr> e_em := True \<rparr>) st)"
    by (simp add: keepsDropped_def)
  have ms: "\<And>env v st e md. truthy (e_primaryKey (entity_at st e)) \<Longrightarrow>
        keepsDropped entity k u MERGE (v, st) (v, mergeEntered env st e md)"
    by (simp add: keepsDropped_def)
  show ?thesis
    by (rule cascade_family_relation(4) [where R = "keepsDropped entity k u", OF rfl keepsDropped_trans
          push ps rs me ms keepsDropped_fix])
qed

text \<open>
  Claim C4, as amended. For an entity that is not yet on the remove stack, in a state that
  satisfies the invariant of the stacks, a \<^verbatim>\<open>remove(entity)\<close> that returns leaves the entity
  off the persist stack, its key out of the identity map, and its uuid out of the
  identifier map and the snapshots; \<^verbatim>\<open>getById\<close> for its type and a primary key that hashes
  to its serialized primary key then finds nothing.
\<close>

theorem remove_drops_identity:
  assumes "entity \<notin> set (removeStack st)" and "stacksInvariant st"
    and "remove n env entity visited st = Some (Inr (visited', st'))"
  shows "entity \<notin> set (persistStack st')
    \<and> map_of (identityMap st') (identityKey st entity) = None
    \<and> map_of (identifierMap st') (e_uuid (entity_at st entity)) = None
    \<and> map_of (originalEntityData st') (e_uuid (entity_at st entity)) = None
    \<and> (\<forall>pk. getPrimaryKeyHash env (asArray pk) = e_serializedPrimaryKey (entity_at st entity) \<longrightarrow>
          getById env st' (e_constructor_name (entity_at st entity)) pk = None)"
proof -
  obtain n' where n: "n = Suc n'" using assms(3) by (cases n) auto
  have c: "cascade n' env entity REMOVE visited False (removeEntered st entity) = Some (Inr (visited', st'))"
    using assms(1,3) unfolding n remove_Suc by simp
  have "identityDropped entity (identityKey st entity) (e_uuid (entity_at st entity)) (removeEntered st entity)"
    using assms(2) by (intro identityDropped_removeEntered) (simp add: stacksInvariant_def)
  moreover have "keepsDropped entity (identityKey st entity) (e_uuid (entity_at st entity)) REMOVE
      (visited, removeEntered st entity) (visited', st')"
    using remove_walk_dropped c by blast
  ultimately have d: "identityDropped entity (identityKey st entity) (e_uuid (entity_at st entity)) st'"
    by (simp add: keepsDropped_def)
  then show ?thesis by (auto simp: identityDropped_def getById_def identityKey_def)
qed

text \<open>
  The claim as stated covers every entity with a primary key. An author that was removed
  and merged again is on the remove stack and in the identity map: \<^verbatim>\<open>remove\<close> then returns
  at its first check, and \<^verbatim>\<open>getById\<close> still finds the author.
\<close>

theorem remove_drops_identity_counterexample:
  "truthy (e_primaryKey (entity_at lockState 0))
   \<and> remove 4 demoEnv 0 [] lockState = Some (Inr ([0], removedState))
   \<and> merge 4 demoEnv 0 [] True removedState = Some (Inr ([0], remergedState))
   \<and> remove 4 demoEnv 0 [] remergedState = Some (Inr ([], remergedState))
   \<and> getById demoEnv remergedState ''Author'' (VStr ''1'') = Some 0"
  by code_simp

theorem remove_drops_identity_witness:
  "0 \<notin> set (removeStack lockState) \<and> stacksInvariant lockState
   \<and> remove 4 demoEnv 0 [] lockState = Some (Inr ([0], removedState))
   \<and> demoHash (asArray (VStr ''1'')) = e_serializedPrimaryKey (entity_at lockState 0)
   \<and> getById demoEnv lockState ''Author'' (VStr ''1'') = Some 0
   \<and> getById demoEnv removedState ''Author'' (VStr ''1'') = None
   \<and> map_of (originalEntityData removedState) ''u0'' = None"
proof -
  have h1: "0 \<notin> set (removeStack lockState)" by (simp add: lockState_def emptyState_def)
  have h2: "stacksInvariant lockState" by (simp add: stacksInvariant_def lockState_def emptyState_def)
  have h3: "remove 4 demoEnv 0 [] lockState = Some (Inr ([0], removedState))" by code_simp
  have h4: "getPrimaryKeyHash demoEnv (asArray (VStr ''1'')) = e_serializedPrimaryKey (entity_at lockState 0)"
    by code_simp
  have h5: "getById demoEnv lockState ''Author'' (VStr ''1'') = Some 0" by code_simp
  have n: "e_constructor_name (entity_at lockState 0) = ''Author''" "e_uuid (entity_at lockState 0) = ''u0''"
    "getPrimaryKeyHash demoEnv = demoHash"
    by (simp_all add: lockState_def emptyState_def entity_at_def demoEntity_def demoEnv_def)
  from remove_drops_identity [OF h1 h2 h3] h4
  show ?thesis using h1 h2 h3 h5 n by simp
qed

subsection \<open>Termination of the cascade walk\<close>

text \<open>
  The walk recurses only into entities that are not yet on \<open>visited\<close>. The entities that
  have fields and are not yet visited form a finite set, \<open>pending\<close>, which no step of the walk
  enlarges and which every push on \<open>visited\<close> of an entity with fields shrinks. This
  bounds the depth of the recursion, hence the fuel that is enough.
\<close>



lemma finite_pending: "finite (pending st v)"
proof -
  have "pending st v \<subseteq> {..<length (entities st)}"
    by (auto simp: pending_def entity_at_def blankEntity_def split: if_splits)
  then show ?thesis by (rule finite_subset) simp
qed

lemma entity_at_cong_entities: "entities st' = entities st \<Longrightarrow> entity_at st' e = entity_at st e"
  by (simp add: entity_at_def)

lemma fields_set_field:
  "e_fields (entity_at (set_field e n v st) x) \<noteq> [] \<Longrightarrow>
     e_fields (entity_at st x) \<noteq> [] \<or> (x = e \<and> map_of (e_fields (entity_at st e)) n = None)"
  by (auto simp: set_field_def entity_at_update_entity split: if_splits)

lemma get_field_truthy_fields:
  "get_field st e n \<noteq> VUndef \<Longrightarrow> map_of (e_fields (entity_at st e)) n \<noteq> None \<and> e < length (entities st)"
  by (auto simp: get_field_def entity_at_def blankEntity_def split: option.splits if_splits)

lemma unwrapReference_VUndef:
  "unwrapReference st e p \<noteq> VUndef \<Longrightarrow> get_field st e (p_name p) \<noteq> VUndef"
  by (auto simp: unwrapReference_def split: val.splits)

lemma pending_fixMissingReference:
  assumes "fixMissingReference env e p st = Inr st'"
  shows "pending st' v \<subseteq> pending st v"
proof -
  let ?reference = "unwrapReference st e p"
  let ?st1 = "(if p_reference p \<in> {MANY_TO_ONE, ONE_TO_ONE} \<and> truthy ?reference \<and> \<not> isEntity ?reference
                 then (case getReference env (p_type p) ?reference (p_wrappedReference p) st of
                         (r, s) \<Rightarrow> set_field e (p_name p) r s)
                 else st)"
  have f1: "e_fields (entity_at ?st1 x) \<noteq> [] \<Longrightarrow> e_fields (entity_at st x) \<noteq> []" for x
  proof (cases "p_reference p \<in> {MANY_TO_ONE, ONE_TO_ONE} \<and> truthy ?reference \<and> \<not> isEntity ?reference")
    case False
    then show "e_fields (entity_at ?st1 x) \<noteq> [] \<Longrightarrow> e_fields (entity_at st x) \<noteq> []"
      by (auto split: if_splits)
  next
    case True
    then have "?reference \<noteq> VUndef" by auto
    then have g: "map_of (e_fields (entity_at st e)) (p_name p) \<noteq> None" "e < length (entities st)"
      using get_field_truthy_fields unwrapReference_VUndef by blast+
    assume "e_fields (entity_at ?st1 x) \<noteq> []"
    then show "e_fields (entity_at st x) \<noteq> []" using True g
      by (cases "x = e")
         (auto simp: getReference_def Let_def set_field_def update_entity_def entity_at_def nth_append
          nth_list_update split: if_splits)
  qed
  have f: "e_fields (entity_at st' x) \<noteq> [] \<Longrightarrow> e_fields (entity_at st x) \<noteq> []" for x
  proof (cases "p_reference p \<in> {ONE_TO_MANY, MANY_TO_MANY} \<and> isArray ?reference")
    case False
    then have "st' = ?st1" using assms by (auto simp: fixMissingReference_def Let_def)
    then show "e_fields (entity_at st' x) \<noteq> [] \<Longrightarrow> e_fields (entity_at st x) \<noteq> []" using f1 by simp
  next
    case True
    then have st1: "?st1 = st" by auto
    let ?st3 = "set_field e (p_name p) (VColl (length (collections st)))
                  (st\<lparr> collections := collections st @ [newCollection e p] \<rparr>)"
    have "Collection_set env (length (collections st)) (asArray ?reference) ?st3 = Inr st'"
      using assms True st1 unfolding fixMissingReference_def Let_def by simp
    then have e3: "entities st' = entities ?st3" by (rule entities_Collection_set)
    from True have "?reference \<noteq> VUndef" by auto
    then have g: "map_of (e_fields (entity_at st e)) (p_name p) \<noteq> None" "e < length (entities st)"
      using get_field_truthy_fields unwrapReference_VUndef by blast+
    assume "e_fields (entity_at st' x) \<noteq> []"
    then have "e_fields (entity_at ?st3 x) \<noteq> []" using entity_at_cong_entities [OF e3] by simp
    then show "e_fields (entity_at st x) \<noteq> []" using g
      by (cases "x = e")
         (auto simp: set_field_def update_entity_def entity_at_def nth_list_update split: if_splits)
  qed
  show ?thesis using f by (auto simp: pending_def)
qed


lemma entity_at_entered:
  "entity_at (persistEntered st e) x = entity_at st x"
  "entity_at (removeEntered st e) x = entity_at st x"
  "entity_at (mergeEntered env st e md) x = entity_at st x"
  by (simp_all add: persistEntered_def removeEntered_def mergeEntered_def unsetIdentity_def
      Let_def entity_at_def)

lemma fields_update_em:
  "e_fields (entity_at (update_entity e (\<lambda>x. x\<lparr> e_em := True \<rparr>) st) x) = e_fields (entity_at st x)"
  by (simp add: entity_at_update_entity)

lemma pending_entered:
  "pending (persistEntered st e) v = pending st v"
  "pending (removeEntered st e) v = pending st v"
  "pending (mergeEntered env st e md) v = pending st v"
  "pending (update_entity e (\<lambda>x. x\<lparr> e_em := True \<rparr>) st) v = pending st v"
  by (simp_all add: pending_def entity_at_entered fields_update_em)

lemma pendingShrinks_trans: "pendingShrinks t a b \<Longrightarrow> pendingShrinks t b c \<Longrightarrow> pendingShrinks t a c"
  by (auto simp: pendingShrinks_def)

lemma pendingShrinks_fix:
  "fixMissingReference env e p st = Inr st' \<Longrightarrow> pendingShrinks t (v, st) (v, st')"
  using pending_fixMissingReference [of env e p st st' v] by (simp add: pendingShrinks_def)

lemma pending_walk:
  "\<forall>r. cascade n env e t v c st = Some (Inr r) \<longrightarrow> pendingShrinks t (v, st) r"
  "\<forall>r. cascadeReference n env e p t v c st = Some (Inr r) \<longrightarrow> pendingShrinks t (v, st) r"
proof -
  have rfl: "\<And>t a. pendingShrinks t a a" by (simp add: pendingShrinks_def)
  have push: "\<And>t v st e. e \<notin> set v \<Longrightarrow> pendingShrinks t (v, st) (v @ [e], st)"
    by (auto simp: pendingShrinks_def pending_def)
  have ps: "\<And>v st e. e \<notin> set (persistStack st) \<Longrightarrow> pendingShrinks PERSIST (v, st) (v, persistEntered st e)"
    by (simp add: pendingShrinks_def pending_entered)
  have rs: "\<And>v st e. e \<notin> set (removeStack st) \<Longrightarrow> pendingShrinks REMOVE (v, st) (v, removeEntered st e)"
    by (simp add: pendingShrinks_def pending_entered)
  have me: "\<And>v st e. pendingShrinks MERGE (v, st) (v, update_entity e (\<lambda>x. x\<lparr> e_em := True \<rparr>) st)"
    by (simp add: pendingShrinks_def pending_entered)
  have ms: "\<And>env v st e md. truthy (e_primaryKey (entity_at st e)) \<Longrightarrow>
        pendingShrinks MERGE (v, st) (v, mergeEntered env st e md)"
    by (simp add: pendingShrinks_def pending_entered)
  show "\<forall>r. cascade n env e t v c st = Some (Inr r) \<longrightarrow> pendingShrinks t (v, st) r"
    by (rule cascade_family_relation(4) [where R = pendingShrinks, OF rfl pendingShrinks_trans push
          ps rs me ms pendingShrinks_fix])
  show "\<forall>r. cascadeReference n env e p t v c st = Some (Inr r) \<longrightarrow> pendingShrinks t (v, st) r"
    by (rule cascade_family_relation(6) [where R = pendingShrinks, OF rfl pendingShrinks_trans push
          ps rs me ms pendingShrinks_fix])
qed

lemma pending_card_mono:
  "pendingShrinks t (v, st) (v', st') \<Longrightarrow> card (pending st' v') \<le> card (pending st v)"
  by (simp add: pendingShrinks_def card_mono finite_pending)

text \<open>A call made by \<^verbatim>\<open>cascade\<close> on the entity it has just pushed returns after one more
  call of \<^verbatim>\<open>cascade\<close>, which finds the entity visited.\<close>

lemma cascade_visited:
  "e \<in> set v \<Longrightarrow> cascade (Suc n) env e t v c st = Some (Inr (v, st))"
  by simp

lemma persist_reentrant:
  "e \<in> set v \<Longrightarrow> persist (Suc (Suc n)) env e v c st =
     Some (Inr (v, if e \<in> set (persistStack st) \<or> (c \<and> e \<in> set (removeStack st)) then st
                   else persistEntered st e))"
  by (simp add: persist_Suc)

lemma remove_reentrant:
  "e \<in> set v \<Longrightarrow> remove (Suc (Suc n)) env e v st =
     Some (Inr (v, if e \<in> set (removeStack st) then st else removeEntered st e))"
  by (simp add: remove_Suc)

lemma merge_reentrant:
  "e \<in> set v \<Longrightarrow> merge (Suc (Suc n)) env e v md st =
     Some (Inr (v, if \<not> truthy (e_primaryKey (entity_at st e))
                   then update_entity e (\<lambda>x. x\<lparr> e_em := True \<rparr>) st
                   else mergeEntered env (update_entity e (\<lambda>x. x\<lparr> e_em := True \<rparr>) st) e md))"
  by (simp add: merge_Suc)

text \<open>An entity without any property set: nothing to fix, nothing to cascade into.\<close>

lemma fixMissingReference_blank:
  "e_fields (entity_at st e) = [] \<Longrightarrow> fixMissingReference env e p st = Inr st"
  by (simp add: fixMissingReference_def unwrapReference_def get_field_def)

lemma cascadeReference_blank:
  "e_fields (entity_at st e) = [] \<Longrightarrow>
     cascadeReference (Suc n) env e p t v c st = Some (Inr (v, st))"
  by (simp add: fixMissingReference_blank unwrapReference_def get_field_def)

lemma cascadeProperties_blank:
  "e_fields (entity_at st e) = [] \<Longrightarrow>
     cascadeProperties (Suc n) env e props t v c st = Some (Inr (v, st))"
  by (induction props) (simp_all add: cascadeReference_blank bindR_def del: cascadeReference.simps)


lemma bindR_returns:
  "m = Some r \<Longrightarrow> (\<And>a. r = Inr a \<Longrightarrow> \<exists>r'. f a = Some r') \<Longrightarrow> \<exists>r'. bindR m f = Some r'"
  by (cases r) (auto simp: bindR_def)

lemma pending_push:
  assumes "e \<notin> set v" "e_fields (entity_at st e) \<noteq> []"
  shows "Suc (card (pending st (v @ [e]))) = card (pending st v)"
proof -
  have "pending st v = insert e (pending st (v @ [e]))" using assms by (auto simp: pending_def)
  moreover have "e \<notin> pending st (v @ [e])" by (simp add: pending_def)
  ultimately show ?thesis using finite_pending [of st "v @ [e]"] by simp
qed

lemma cascade_operation_returns:
  assumes "e \<notin> set v"
  shows "\<exists>st1. (case t of
           PERSIST \<Rightarrow> persist (Suc (Suc m)) env e (v @ [e]) c st
         | MERGE \<Rightarrow> merge (Suc (Suc m)) env e (v @ [e]) True st
         | REMOVE \<Rightarrow> remove (Suc (Suc m)) env e (v @ [e]) st
         | Cascade_ALL \<Rightarrow> Some (Inr (v @ [e], st))) = Some (Inr (v @ [e], st1))
       \<and> (\<forall>x. e_fields (entity_at st1 x) = e_fields (entity_at st x))"
  by (cases t) (auto simp: persist_reentrant remove_reentrant merge_reentrant entity_at_entered
      fields_update_em)

lemma cascade_returns:
  "persist n env e v c st = persist n env e v c st"
  and "remove n env e v st = remove n env e v st"
  and "merge n env e v md st = merge n env e v md st"
  and cascade_fuel: "2 * card (pending st v) + 3 \<le> n \<longrightarrow> (\<exists>r. cascade n env e t v c st = Some r)"
  and cascadeProperties_fuel: "2 * card (pending st v) + 4 \<le> n \<longrightarrow> (\<exists>r. cascadeProperties n env e props t v c st = Some r)"
  and cascadeReference_fuel: "2 * card (pending st v) + 4 \<le> n \<longrightarrow> (\<exists>r. cascadeReference n env e pr t v c st = Some r)"
  and cascadeItems_fuel: "2 * card (pending st v) + 3 \<le> n \<longrightarrow> (\<exists>r. cascadeItems n env items t v c st = Some r)"
proof (induct n env e v c st and n env e v st and n env e v md st and n env e t v c st
    and n env e props t v c st and n env e pr t v c st and n env items t v c st
    rule: persist_remove_merge_cascade_cascadeProperties_cascadeReference_cascadeItems.induct)
  case (8 n env entity type visited checkRemoveStack st)
  show ?case
  proof
    assume fuel: "2 * card (pending st visited) + 3 \<le> Suc n"
    show "\<exists>r. cascade (Suc n) env entity type visited checkRemoveStack st = Some r"
    proof (cases "entity \<in> set visited")
      case True
      then show ?thesis by simp
    next
      case False
      obtain m where n: "n = Suc (Suc m)" using fuel by (cases n; cases "n - 1") auto
      obtain st1 where op: "(case type of
           PERSIST \<Rightarrow> persist n env entity (visited @ [entity]) checkRemoveStack st
         | MERGE \<Rightarrow> merge n env entity (visited @ [entity]) True st
         | REMOVE \<Rightarrow> remove n env entity (visited @ [entity]) st
         | Cascade_ALL \<Rightarrow> Some (Inr (visited @ [entity], st))) = Some (Inr (visited @ [entity], st1))"
        and fs: "\<forall>x. e_fields (entity_at st1 x) = e_fields (entity_at st x)"
        using cascade_operation_returns [where e = entity and v = visited and t = type and m = m
            and env = env and c = checkRemoveStack and st = st, OF False]
        unfolding n by blast
      let ?props = "filter (\<lambda>prop. p_reference prop \<noteq> SCALAR)
                (m_properties (metadata env (e_constructor_name (entity_at st1 entity))))"
      have eq: "cascade (Suc n) env entity type visited checkRemoveStack st =
          cascadeProperties n env entity ?props type (visited @ [entity]) checkRemoveStack st1"
        using False op by (simp add: bindR_def)
      have pe: "pending st1 w = pending st w" for w using fs by (simp add: pending_def)
      show ?thesis
      proof (cases "e_fields (entity_at st entity) = []")
        case True
        then have "e_fields (entity_at st1 entity) = []" using fs by simp
        then have "\<exists>r. cascadeProperties n env entity ?props type (visited @ [entity]) checkRemoveStack st1 = Some r"
          unfolding n by (simp add: cascadeProperties_blank)
        then show ?thesis by (simp only: eq)
      next
        case nonblank: False
        have "Suc (card (pending st (visited @ [entity]))) = card (pending st visited)"
          using pending_push [OF False nonblank] .
        then have "2 * card (pending st1 (visited @ [entity])) + 4 \<le> n"
          using fuel by (simp add: pe)
        then have "\<exists>r. cascadeProperties n env entity ?props type (visited @ [entity]) checkRemoveStack st1 = Some r"
          using "8.hyps"(4) [OF False] by blast
        then show ?thesis by (simp only: eq)
      qed
    qed
  qed
next
  case (10 n env entity p props type visited checkRemoveStack st)
  show ?case
  proof
    assume fuel: "2 * card (pending st visited) + 4 \<le> n"
    then obtain r where r: "cascadeReference n env entity p type visited checkRemoveStack st = Some r"
      using 10(1) by blast
    have "\<exists>r'. (case a of (visited1, st1) \<Rightarrow>
        cascadeProperties n env entity props type visited1 checkRemoveStack st1) = Some r'"
      if "r = Inr a" for a
    proof -
      obtain v1 st1 where a: "a = (v1, st1)" by (cases a)
      have "pendingShrinks type (visited, st) (v1, st1)" using pending_walk(2) r that a by blast
      then have "card (pending st1 v1) \<le> card (pending st visited)" by (rule pending_card_mono)
      then have "2 * card (pending st1 v1) + 4 \<le> n" using fuel by simp
      then show ?thesis using 10(2) a by simp
    qed
    then show "\<exists>r. cascadeProperties n env entity (p # props) type visited checkRemoveStack st = Some r"
      using bindR_returns [OF r, where f = "\<lambda>(visited1, st1).
          cascadeProperties n env entity props type visited1 checkRemoveStack st1"] by simp
  qed
next
  case (12 n env entity p type visited checkRemoveStack st)
  show ?case
  proof
    assume fuel: "2 * card (pending st visited) + 4 \<le> Suc n"
    show "\<exists>r. cascadeReference (Suc n) env entity p type visited checkRemoveStack st = Some r"
    proof (cases "fixMissingReference env entity p st")
      case (Inl a)
      then show ?thesis by simp
    next
      case (Inr st1)
      have "card (pending st1 visited) \<le> card (pending st visited)"
        using pending_fixMissingReference [OF Inr, of visited] by (simp add: card_mono finite_pending)
      then have f1: "2 * card (pending st1 visited) + 3 \<le> n" using fuel by simp
      have one: "\<exists>r. cascade n env x6 type visited checkRemoveStack st1 = Some r"
        if "shouldCascade p type" "p_reference p \<in> {MANY_TO_ONE, ONE_TO_ONE}"
          "unwrapReference st1 entity p = VEnt x6" for x6
        using "12.hyps"(1) [OF Inr, of "VEnt x6" x6] that f1 by simp
      have many: "\<exists>r. cascadeItems n env (c_items (collection_at st1 x8)) type visited checkRemoveStack st1 = Some r"
        if "shouldCascade p type" "p_reference p \<in> {ONE_TO_MANY, MANY_TO_MANY}"
          "unwrapReference st1 entity p = VColl x8" "Collection_isInitialized st1 x8 (type = PERSIST)"
        for x8
        using "12.hyps"(2) [OF Inr, of "VColl x8" x8] that f1 by auto
      show ?thesis using Inr one many
        by (auto simp: Let_def split: val.splits)
    qed
  qed
next
  case (14 n env item items type visited checkRemoveStack st)
  show ?case
  proof
    assume fuel: "2 * card (pending st visited) + 3 \<le> n"
    then obtain r where r: "cascade n env item type visited checkRemoveStack st = Some r"
      using 14(1) by blast
    have "\<exists>r'. (case a of (visited1, st1) \<Rightarrow>
        cascadeItems n env items type visited1 checkRemoveStack st1) = Some r'"
      if "r = Inr a" for a
    proof -
      obtain v1 st1 where a: "a = (v1, st1)" by (cases a)
      have "pendingShrinks type (visited, st) (v1, st1)" using pending_walk(1) r that a by blast
      then have "card (pending st1 v1) \<le> card (pending st visited)" by (rule pending_card_mono)
      then have "2 * card (pending st1 v1) + 3 \<le> n" using fuel by simp
      then show ?thesis using 14(2) a by simp
    qed
    then show "\<exists>r. cascadeItems n env (item # items) type visited checkRemoveStack st = Some r"
      using bindR_returns [OF r, where f = "\<lambda>(visited1, st1).
          cascadeItems n env items type visited1 checkRemoveStack st1"] by simp
  qed
qed simp_all


text \<open>More fuel never changes a result, so the result of a walk does not depend on the fuel
  it was given.\<close>


lemma bindR_mono:
  assumes "bindR m f = Some r"
    and "\<And>a. m = Some a \<Longrightarrow> m' = Some a"
    and "\<And>a. m = Some (Inr a) \<Longrightarrow> f a = Some r \<Longrightarrow> f' a = Some r"
  shows "bindR m' f' = Some r"
  using assms by (auto simp: bindR_def split: option.splits sum.splits)

lemma cascade_fuel_mono:
  "\<forall>r. persist n env e v c st = Some r \<longrightarrow> persist (Suc n) env e v c st = Some r"
  and "\<forall>r. remove n env e v st = Some r \<longrightarrow> remove (Suc n) env e v st = Some r"
  and "\<forall>r. merge n env e v md st = Some r \<longrightarrow> merge (Suc n) env e v md st = Some r"
  and cascade_fuel_Suc: "\<forall>r. cascade n env e t v c st = Some r \<longrightarrow> cascade (Suc n) env e t v c st = Some r"
  and "\<forall>r. cascadeProperties n env e props t v c st = Some r
         \<longrightarrow> cascadeProperties (Suc n) env e props t v c st = Some r"
  and "\<forall>r. cascadeReference n env e pr t v c st = Some r
         \<longrightarrow> cascadeReference (Suc n) env e pr t v c st = Some r"
  and "\<forall>r. cascadeItems n env items t v c st = Some r
         \<longrightarrow> cascadeItems (Suc n) env items t v c st = Some r"
proof (induct n env e v c st and n env e v st and n env e v md st and n env e t v c st
    and n env e props t v c st and n env e pr t v c st and n env items t v c st
    rule: persist_remove_merge_cascade_cascadeProperties_cascadeReference_cascadeItems.induct)
  case (1 env entity visited checkRemoveStack st)
  then show ?case by simp
next
  case (2 n env entity visited checkRemoveStack st)
  show ?case
  proof (cases "entity \<in> set (persistStack st) \<or> (checkRemoveStack \<and> entity \<in> set (removeStack st))")
    case True
    then show ?thesis unfolding persist_Suc by simp
  next
    case False
    have "\<forall>r. cascade n env entity PERSIST visited checkRemoveStack (persistEntered st entity) = Some r
            \<longrightarrow> cascade (Suc n) env entity PERSIST visited checkRemoveStack (persistEntered st entity) = Some r"
      using 2 [OF _ _ refl refl refl] False unfolding persistEntered_def Let_def by blast
    then show ?thesis using False unfolding persist_Suc by (auto simp del: cascade.simps)
  qed
next
  case (3 env entity visited st)
  then show ?case by simp
next
  case (4 n env entity visited st)
  show ?case
  proof (cases "entity \<in> set (removeStack st)")
    case True
    then show ?thesis unfolding remove_Suc by simp
  next
    case False
    have "\<forall>r. cascade n env entity REMOVE visited False (removeEntered st entity) = Some r
            \<longrightarrow> cascade (Suc n) env entity REMOVE visited False (removeEntered st entity) = Some r"
      using 4 [OF _ refl refl refl] False unfolding removeEntered_def Let_def by blast
    then show ?thesis using False unfolding remove_Suc by (simp del: cascade.simps)
  qed
next
  case (5 env entity visited mergeData st)
  then show ?case by simp
next
  case (6 n env entity visited mergeData st)
  let ?st1 = "update_entity entity (\<lambda>x. x\<lparr> e_em := True \<rparr>) st"
  have pk: "e_primaryKey (entity_at ?st1 entity) = e_primaryKey (entity_at st entity)"
    by (auto simp: entity_at_def update_entity_def)
  show ?case
  proof (cases "truthy (e_primaryKey (entity_at st entity))")
    case False
    then show ?thesis unfolding merge_Suc by simp
  next
    case True
    have "\<forall>r. cascade n env entity MERGE visited False (mergeEntered env ?st1 entity mergeData) = Some r
            \<longrightarrow> cascade (Suc n) env entity MERGE visited False (mergeEntered env ?st1 entity mergeData) = Some r"
      using 6 [OF refl _ refl refl] True pk unfolding mergeEntered_def Let_def by simp
    then show ?thesis using True unfolding merge_Suc by (simp del: cascade.simps)
  qed
next
  case (7 env entity type visited checkRemoveStack st)
  then show ?case by simp
next
  case (8 n env entity type visited checkRemoveStack st)
  show ?case
  proof (cases "entity \<in> set visited")
    case True
    then show ?thesis by simp
  next
    case False
    let ?op = "\<lambda>k. (case type of
           PERSIST \<Rightarrow> persist k env entity (visited @ [entity]) checkRemoveStack st
         | MERGE \<Rightarrow> merge k env entity (visited @ [entity]) True st
         | REMOVE \<Rightarrow> remove k env entity (visited @ [entity]) st
         | Cascade_ALL \<Rightarrow> Some (Inr (visited @ [entity], st)))"
    let ?k = "\<lambda>k (visited1, st1).
           cascadeProperties k env entity
             (filter (\<lambda>prop. p_reference prop \<noteq> SCALAR)
                (m_properties (metadata env (e_constructor_name (entity_at st1 entity)))))
             type visited1 checkRemoveStack st1"
    have opm: "?op n = Some a \<Longrightarrow> ?op (Suc n) = Some a" for a
      using "8.hyps"(1-3) False by (cases type) auto
    have km: "?op n = Some (Inr a) \<Longrightarrow> ?k n a = Some r \<Longrightarrow> ?k (Suc n) a = Some r" for a r
      using "8.hyps"(4) [OF False] by (cases a) auto
    show ?thesis
    proof (intro allI impI)
      fix r assume a: "cascade (Suc n) env entity type visited checkRemoveStack st = Some r"
      then have "bindR (?op n) (?k n) = Some r" using False by simp
      then have "bindR (?op (Suc n)) (?k (Suc n)) = Some r"
        by (rule bindR_mono) (erule opm, erule km, assumption)
      then show "cascade (Suc (Suc n)) env entity type visited checkRemoveStack st = Some r"
        using False by simp
    qed
  qed
next
  case (9 n env entity type visited checkRemoveStack st)
  then show ?case by simp
next
  case (10 n env entity p props type visited checkRemoveStack st)
  show ?case
  proof (intro allI impI)
    fix r assume a: "cascadeProperties n env entity (p # props) type visited checkRemoveStack st = Some r"
    then have "bindR (cascadeReference n env entity p type visited checkRemoveStack st)
       (\<lambda>(visited1, st1). cascadeProperties n env entity props type visited1 checkRemoveStack st1) = Some r"
      by simp
    then have "bindR (cascadeReference (Suc n) env entity p type visited checkRemoveStack st)
       (\<lambda>(visited1, st1). cascadeProperties (Suc n) env entity props type visited1 checkRemoveStack st1) = Some r"
    proof (rule bindR_mono)
      fix a assume "cascadeReference n env entity p type visited checkRemoveStack st = Some a"
      then show "cascadeReference (Suc n) env entity p type visited checkRemoveStack st = Some a"
        using 10(1) by blast
    next
      fix a assume m: "cascadeReference n env entity p type visited checkRemoveStack st = Some (Inr a)"
        and f: "(case a of (visited1, st1) \<Rightarrow> cascadeProperties n env entity props type visited1 checkRemoveStack st1) = Some r"
      show "(case a of (visited1, st1) \<Rightarrow> cascadeProperties (Suc n) env entity props type visited1 checkRemoveStack st1) = Some r"
        using 10(2) m f by (cases a) auto
    qed
    then show "cascadeProperties (Suc n) env entity (p # props) type visited checkRemoveStack st = Some r"
      by simp
  qed
next
  case (11 env entity p type visited checkRemoveStack st)
  then show ?case by simp
next
  case (12 n env entity p type visited checkRemoveStack st)
  show ?case
  proof (cases "fixMissingReference env entity p st")
    case (Inl e)
    then show ?thesis by simp
  next
    case (Inr st1)
    note fx = Inr
    show ?thesis
    proof (cases "shouldCascade p type")
      case False
      then show ?thesis using fx by simp
    next
      case sc: True
      have one: "p_reference p \<in> {MANY_TO_ONE, ONE_TO_ONE} \<Longrightarrow> truthy (unwrapReference st1 entity p)
          \<Longrightarrow> unwrapReference st1 entity p = VEnt x
          \<Longrightarrow> \<forall>r. cascade n env x type visited checkRemoveStack st1 = Some r
                \<longrightarrow> cascade (Suc n) env x type visited checkRemoveStack st1 = Some r" for x
        using "12.hyps"(1) [OF fx, of "VEnt x" x] sc by simp
      have many: "\<not> (p_reference p \<in> {MANY_TO_ONE, ONE_TO_ONE} \<and> truthy (unwrapReference st1 entity p))
          \<Longrightarrow> p_reference p \<in> {ONE_TO_MANY, MANY_TO_MANY} \<Longrightarrow> truthy (unwrapReference st1 entity p)
          \<Longrightarrow> unwrapReference st1 entity p = VColl x
          \<Longrightarrow> Collection_isInitialized st1 x (type = PERSIST)
          \<Longrightarrow> \<forall>r. cascadeItems n env (c_items (collection_at st1 x)) type visited checkRemoveStack st1 = Some r
                \<longrightarrow> cascadeItems (Suc n) env (c_items (collection_at st1 x)) type visited checkRemoveStack st1 = Some r" for x
        using "12.hyps"(2) [OF fx, of "VColl x" x] sc by auto
      show ?thesis
        using fx sc one many
        by (auto simp: Let_def split: val.splits)
    qed
  qed
next
  case (13 n env type visited checkRemoveStack st)
  then show ?case by simp
next
  case (14 n env item items type visited checkRemoveStack st)
  show ?case
  proof (intro allI impI)
    fix r assume a: "cascadeItems n env (item # items) type visited checkRemoveStack st = Some r"
    then have "bindR (cascade n env item type visited checkRemoveStack st)
       (\<lambda>(visited1, st1). cascadeItems n env items type visited1 checkRemoveStack st1) = Some r"
      by simp
    then have "bindR (cascade (Suc n) env item type visited checkRemoveStack st)
       (\<lambda>(visited1, st1). cascadeItems (Suc n) env items type visited1 checkRemoveStack st1) = Some r"
    proof (rule bindR_mono)
      fix a assume "cascade n env item type visited checkRemoveStack st = Some a"
      then show "cascade (Suc n) env item type visited checkRemoveStack st = Some a"
        using 14(1) by blast
    next
      fix a assume m: "cascade n env item type visited checkRemoveStack st = Some (Inr a)"
        and f: "(case a of (visited1, st1) \<Rightarrow> cascadeItems n env items type visited1 checkRemoveStack st1) = Some r"
      show "(case a of (visited1, st1) \<Rightarrow> cascadeItems (Suc n) env items type visited1 checkRemoveStack st1) = Some r"
        using 14(2) m f by (cases a) auto
    qed
    then show "cascadeItems (Suc n) env (item # items) type visited checkRemoveStack st = Some r"
      by simp
  qed
qed




subsection \<open>The log of the calls\<close>

lemma forgetLog_simps [simp]:
  "forgetLog None = None"
  "forgetLog (Some (Inl e)) = Some (Inl e)"
  "forgetLog (Some (Inr (v, s, l))) = Some (Inr (v, s))"
  by (simp_all add: forgetLog_def)


lemma forgetLog_Some:
  "forgetLog r = Some (Inr (v, s)) \<Longrightarrow> \<exists>l. r = Some (Inr (v, s, l))"
  by (cases r) (auto simp: forgetLog_def map_sum_def split: sum.splits)

lemma forgetLog_returns: "forgetLog r = Some x \<Longrightarrow> \<exists>y. r = Some y"
  by (cases r) (auto simp: forgetLog_def)




subsection \<open>Claim C8: the cascade walk ends and calls the operation once per entity\<close>








subsection \<open>Claim C3: what a commit leaves of the cycle\<close>

lemma postCommitCleanup_empty:
  "persistStack (postCommitCleanup st) = []"
  "removeStack (postCommitCleanup st) = []"
  "orphanRemoveStack (postCommitCleanup st) = []"
  "changeSets (postCommitCleanup st) = []"
  "identifierMap (postCommitCleanup st) = []"
  "collectionUpdates (postCommitCleanup st) = []"
  "extraUpdates (postCommitCleanup st) = []"
  by (simp_all add: postCommitCleanup_def)

lemma commit_returns_cleaned:
  assumes "commit n env st = Some (Inr st')"
  shows "\<exists>st3. st' = postCommitCleanup st3"
  using assms
  by (auto simp: commit_def bindR_def Let_def split: option.splits sum.splits if_splits)

text \<open>
  Claim C3, for the calls that return. \<^verbatim>\<open>commit\<close> calls \<^verbatim>\<open>postCommitCleanup\<close> as its last
  statement, on both of its paths, so after a \<^verbatim>\<open>commit\<close> that returns the three stacks, the
  change sets, the identifier map, the collection updates and the extra updates are
  empty. There is no \<^verbatim>\<open>try\<close> around the database pass: when computing the change sets or
  the database pass throws, \<^verbatim>\<open>commit\<close> throws the same error in the state of the throw,
  and the cleanup has not run.
\<close>

theorem commit_cleanup:
  "(\<forall>st'. commit n env st = Some (Inr st') \<longrightarrow>
      persistStack st' = [] \<and> removeStack st' = [] \<and> orphanRemoveStack st' = []
      \<and> changeSets st' = [] \<and> identifierMap st' = [] \<and> collectionUpdates st' = []
      \<and> extraUpdates st' = [])
   \<and> (\<forall>e. computeChangeSets n env st = Some (Inl e) \<longrightarrow> commit n env st = Some (Inl e))
   \<and> (\<forall>st1 e. computeChangeSets n env st = Some (Inr st1)
        \<and> \<not> (changeSets st1 = [] \<and> collectionUpdates st1 = [] \<and> extraUpdates st1 = [])
        \<and> (if \<not> isInTransaction env (reorderChangeSets env st1) \<and> supportsTransactions env
                \<and> implicitTransactions env (reorderChangeSets env st1)
            then transactional env (persistToDatabase n env) (reorderChangeSets env st1)
            else persistToDatabase n env (reorderChangeSets env st1)) = Some (Inl e)
        \<longrightarrow> commit n env st = Some (Inl e))"
proof -
  have ok: "\<forall>st'. commit n env st = Some (Inr st') \<longrightarrow>
      persistStack st' = [] \<and> removeStack st' = [] \<and> orphanRemoveStack st' = []
      \<and> changeSets st' = [] \<and> identifierMap st' = [] \<and> collectionUpdates st' = []
      \<and> extraUpdates st' = []"
  proof (intro allI impI)
    fix st' assume a: "commit n env st = Some (Inr st')"
    then obtain st3 where "st' = postCommitCleanup st3" using commit_returns_cleaned by blast
    then show "persistStack st' = [] \<and> removeStack st' = [] \<and> orphanRemoveStack st' = []
        \<and> changeSets st' = [] \<and> identifierMap st' = [] \<and> collectionUpdates st' = []
        \<and> extraUpdates st' = []"
      by (simp add: postCommitCleanup_empty)
  qed
  have compute: "\<forall>e. computeChangeSets n env st = Some (Inl e) \<longrightarrow> commit n env st = Some (Inl e)"
    by (simp add: commit_def bindR_def)
  have pass: "\<forall>st1 e. computeChangeSets n env st = Some (Inr st1)
        \<and> \<not> (changeSets st1 = [] \<and> collectionUpdates st1 = [] \<and> extraUpdates st1 = [])
        \<and> (if \<not> isInTransaction env (reorderChangeSets env st1) \<and> supportsTransactions env
                \<and> implicitTransactions env (reorderChangeSets env st1)
            then transactional env (persistToDatabase n env) (reorderChangeSets env st1)
            else persistToDatabase n env (reorderChangeSets env st1)) = Some (Inl e)
        \<longrightarrow> commit n env st = Some (Inl e)"
    by (auto simp: commit_def bindR_def Let_def)
  show ?thesis using ok compute pass by blast
qed

text \<open>
  A driver call that throws: the new author is persisted and the commit runs on a driver
  whose write throws. \<^verbatim>\<open>commit\<close> throws, and the change set and the identifier of the author
  are still there.
\<close>

theorem commit_cleanup_counterexample:
  "persist 3 demoEnv 2 [] False lockState = Some (Inr ([2], pendingState))
   \<and> commit 10 failingEnv pendingState = Some (Inl (Thrown ''driver'', failedState))
   \<and> changeSets failedState \<noteq> []
   \<and> identifierMap failedState \<noteq> []"
  by code_simp

theorem commit_cleanup_witness:
  "(\<exists>st'. commit 10 demoEnv pendingState = Some (Inr st')
      \<and> persistStack st' = [] \<and> removeStack st' = [] \<and> orphanRemoveStack st' = []
      \<and> changeSets st' = [] \<and> identifierMap st' = [] \<and> collectionUpdates st' = []
      \<and> extraUpdates st' = [])
   \<and> computeChangeSets 10 failingEnv pendingState = Some (Inr failedState)
   \<and> changeSets failedState \<noteq> []
   \<and> persistToDatabase 10 failingEnv (reorderChangeSets failingEnv failedState)
        = Some (Inl (Thrown ''driver'', failedState))
   \<and> commit 10 failingEnv pendingState = Some (Inl (Thrown ''driver'', failedState))"
proof -
  have h1: "commit 10 demoEnv pendingState
      = Some (Inr (failedState\<lparr> identifierMap := [], changeSets := [] \<rparr>))"
    by code_simp
  have h2: "computeChangeSets 10 failingEnv pendingState = Some (Inr failedState)" by code_simp
  have h3: "changeSets failedState \<noteq> []" by code_simp
  have h4: "persistToDatabase 10 failingEnv (reorderChangeSets failingEnv failedState)
        = Some (Inl (Thrown ''driver'', failedState))"
    by code_simp
  have h5: "\<not> supportsTransactions failingEnv" by code_simp
  from commit_cleanup [of 10 demoEnv pendingState] h1
  have a: "\<exists>st'. commit 10 demoEnv pendingState = Some (Inr st')
      \<and> persistStack st' = [] \<and> removeStack st' = [] \<and> orphanRemoveStack st' = []
      \<and> changeSets st' = [] \<and> identifierMap st' = [] \<and> collectionUpdates st' = []
      \<and> extraUpdates st' = []"
    by blast
  from commit_cleanup [of 10 failingEnv pendingState] h2 h3 h4 h5
  have b: "commit 10 failingEnv pendingState = Some (Inl (Thrown ''driver'', failedState))"
    by simp
  show ?thesis using a b h2 h3 h4 by blast
qed


subsection \<open>Claim C2: a collection that closes a cycle is deferred\<close>







lemma length_entities_set_field: "length (entities (set_field e name v st)) = length (entities st)"
  by (simp add: set_field_def update_entity_def)




end
